theory Spec2Isabelle
  imports Main
begin

section \<open>Go library functions used by start.go\<close>

text \<open>
  A Go string is a sequence of bytes, here a \<open>char list\<close>. A Go \<open>int\<close> is a 64-bit
  two's complement integer (on the 64-bit platforms); it is modelled as an \<open>int\<close> and
  every arithmetic result that could leave the range is passed through \<open>wrap64\<close>.
\<close>

definition wrap64 :: "int \<Rightarrow> int" where
  "wrap64 x = (x + 2 ^ 63) mod 2 ^ 64 - 2 ^ 63"

definition in_int64 :: "int \<Rightarrow> bool" where
  "in_int64 x = (- (2 ^ 63) \<le> x \<and> x < 2 ^ 63)"

subsection \<open>strings.Contains, strings.Split (separator of one byte)\<close>

definition Contains :: "string \<Rightarrow> char \<Rightarrow> bool" where
  "Contains s sep = (sep \<in> set s)"

text \<open>
  \<open>strings.Split(s, sep)\<close> cuts \<open>s\<close> at every occurrence of \<open>sep\<close>; the result has
  one more element than \<open>s\<close> has separators, so \<open>Split "" sep\<close> is \<open>[""]\<close>. The
  recursive call never returns the empty list; the \<open>[]\<close> branch is there for totality.
\<close>

fun Split :: "string \<Rightarrow> char \<Rightarrow> string list" where
  "Split [] sep = [[]]"
| "Split (c # cs) sep =
     (if c = sep then [] # Split cs sep
      else (case Split cs sep of
              [] \<Rightarrow> [[c]]
            | p # ps \<Rightarrow> (c # p) # ps))"

subsection \<open>strings.TrimSpace\<close>

text \<open>
  \<open>strings.TrimSpace\<close> removes leading and trailing white space as defined by Unicode
  (\<open>unicode.IsSpace\<close>): the ASCII characters tab, line feed, vertical tab, form feed,
  carriage return and space, and the code points U+0085, U+00A0, U+1680, U+2000 to
  U+200A, U+2028, U+2029, U+202F, U+205F and U+3000. The string is UTF-8, so each of
  the latter is a sequence of two or three bytes. A white space rune stands at the
  start (the end) of a string exactly when the string starts (ends) with its encoding.
\<close>

definition asciiSpace :: "char \<Rightarrow> bool" where
  "asciiSpace c = (c \<in> {CHR 0x09, CHR 0x0A, CHR 0x0B, CHR 0x0C, CHR 0x0D, CHR 0x20})"

definition multiByteSpaces :: "string list" where
  "multiByteSpaces =
     [[CHR 0xC2, CHR 0x85], [CHR 0xC2, CHR 0xA0], [CHR 0xE1, CHR 0x9A, CHR 0x80]] @
     map (\<lambda>b. [CHR 0xE2, CHR 0x80, b])
       [CHR 0x80, CHR 0x81, CHR 0x82, CHR 0x83, CHR 0x84, CHR 0x85, CHR 0x86, CHR 0x87,
        CHR 0x88, CHR 0x89, CHR 0x8A, CHR 0xA8, CHR 0xA9, CHR 0xAF] @
     [[CHR 0xE2, CHR 0x81, CHR 0x9F], [CHR 0xE3, CHR 0x80, CHR 0x80]]"

definition spaceWidth :: "string \<Rightarrow> nat" where
  \<comment> \<open>the number of bytes of the white space rune the string starts with, 0 if none\<close>
  "spaceWidth s =
     (case s of
        [] \<Rightarrow> 0
      | c # _ \<Rightarrow>
          if asciiSpace c then 1
          else (case filter (\<lambda>w. take (length w) s = w) multiByteSpaces of
                  [] \<Rightarrow> 0
                | w # _ \<Rightarrow> length w))"

definition spaceWidthLast :: "string \<Rightarrow> nat" where
  \<comment> \<open>the number of bytes of the white space rune the string ends with, 0 if none\<close>
  "spaceWidthLast s =
     (case rev s of
        [] \<Rightarrow> 0
      | c # _ \<Rightarrow>
          if asciiSpace c then 1
          else (case filter (\<lambda>w. take (length w) (rev s) = rev w) multiByteSpaces of
                  [] \<Rightarrow> 0
                | w # _ \<Rightarrow> length w))"

lemma spaceWidth_Nil [simp]: "spaceWidth [] = 0"
  by (simp add: spaceWidth_def)

lemma spaceWidthLast_Nil [simp]: "spaceWidthLast [] = 0"
  by (simp add: spaceWidthLast_def)

function TrimLeft :: "string \<Rightarrow> string" where
  "TrimLeft s = (if spaceWidth s = 0 then s else TrimLeft (drop (spaceWidth s) s))"
  by pat_completeness auto
termination
  by (relation "measure length") (auto intro!: diff_less simp: neq_Nil_conv [symmetric])

function TrimRight :: "string \<Rightarrow> string" where
  "TrimRight s =
     (if spaceWidthLast s = 0 then s else TrimRight (take (length s - spaceWidthLast s) s))"
  by pat_completeness auto
termination
  by (relation "measure length") (auto intro!: diff_less simp: neq_Nil_conv [symmetric])

declare TrimLeft.simps [simp del] TrimRight.simps [simp del]

definition TrimSpace :: "string \<Rightarrow> string" where
  "TrimSpace s = TrimRight (TrimLeft s)"

subsection \<open>strconv.ParseUint and strconv.ParseInt in base 10\<close>

datatype error =
    ParsingConcurency \<comment> \<open>\<open>errors.New("Parsing concurency")\<close>\<close>
  | ErrSyntax \<comment> \<open>\<open>strconv.ErrSyntax\<close>, wrapped in a \<open>NumError\<close>\<close>
  | ErrRange \<comment> \<open>\<open>strconv.ErrRange\<close>, wrapped in a \<open>NumError\<close>\<close>
  | IndexOutOfRange \<comment> \<open>the run-time panic of an index beyond a slice's length\<close>
  | NoSuchProcess string \<comment> \<open>\<open>"no such process: %s"\<close>\<close>
  | ReadError string \<comment> \<open>an error of \<open>ReadProcfile\<close> or \<open>ReadEnv\<close>\<close>

definition isDigit :: "char \<Rightarrow> bool" where
  "isDigit c = ((of_char CHR ''0'' :: nat) \<le> of_char c \<and> (of_char c :: nat) \<le> of_char CHR ''9'')"

definition digitVal :: "char \<Rightarrow> nat" where
  "digitVal c = of_char c - of_char CHR ''0''"

text \<open>
  The loop of \<open>ParseUint\<close> over the bytes of the string, with the accumulator \<open>n\<close>
  (a \<open>uint64\<close>). A byte that is not a decimal digit is a syntax error (in base 10 a
  letter is a digit \<open>\<ge> 10\<close> and the underscore is only read in base 0). The value is
  checked against \<open>maxVal\<close> after every digit, so a range error is returned at the
  first digit that exceeds it, with \<open>maxVal\<close> as the value.
\<close>

fun parseDigits :: "nat \<Rightarrow> nat \<Rightarrow> string \<Rightarrow> nat \<times> error option" where
  "parseDigits maxVal n [] = (n, None)"
| "parseDigits maxVal n (c # cs) =
     (if \<not> isDigit c then (0, Some ErrSyntax)
      else if n \<ge> (2 ^ 64 - 1) div 10 + 1 then (maxVal, Some ErrRange)
      else (let n1 = n * 10 + digitVal c
            in if n1 \<ge> 2 ^ 64 \<or> n1 > maxVal then (maxVal, Some ErrRange)
               else parseDigits maxVal n1 cs))"

definition ParseUint :: "string \<Rightarrow> nat \<Rightarrow> nat \<times> error option" where
  \<comment> \<open>\<open>strconv.ParseUint(s, 10, bitSize)\<close> for \<open>1 \<le> bitSize \<le> 64\<close>\<close>
  "ParseUint s bitSize =
     (if s = [] then (0, Some ErrSyntax) else parseDigits (2 ^ bitSize - 1) 0 s)"

definition ParseInt :: "string \<Rightarrow> nat \<Rightarrow> int \<times> error option" where
  \<comment> \<open>\<open>strconv.ParseInt(s, 10, bitSize)\<close> for \<open>1 \<le> bitSize \<le> 64\<close>\<close>
  "ParseInt s bitSize =
     (if s = [] then (0, Some ErrSyntax)
      else
        (let neg = (hd s = CHR ''-'');
             s' = (if hd s = CHR ''+'' \<or> hd s = CHR ''-'' then tl s else s);
             (un, err) = ParseUint s' bitSize;
             cutoff = 2 ^ (bitSize - 1)
         in if err \<noteq> None \<and> err \<noteq> Some ErrRange then (0, err)
            else if \<not> neg \<and> un \<ge> cutoff then (int cutoff - 1, Some ErrRange)
            else if neg \<and> un > cutoff then (- int cutoff, Some ErrRange)
            else (let n = wrap64 (int un) in if neg then wrap64 (- n) else n, None)))"

text \<open>
  What the claims call an integer value: an optional sign and at least one decimal
  digit; and the integer it denotes.
\<close>

definition decimal :: "string \<Rightarrow> nat" where
  "decimal s = foldl (\<lambda>a c. a * 10 + digitVal c) 0 s"

definition isInteger :: "string \<Rightarrow> bool" where
  "isInteger v =
     (case v of
        [] \<Rightarrow> False
      | c # cs \<Rightarrow>
          if c = CHR ''+'' \<or> c = CHR ''-'' then cs \<noteq> [] \<and> list_all isDigit cs
          else list_all isDigit v)"

definition intValue :: "string \<Rightarrow> int" where
  "intValue v =
     (case v of
        [] \<Rightarrow> 0
      | c # cs \<Rightarrow>
          if c = CHR ''-'' then - int (decimal cs)
          else if c = CHR ''+'' then int (decimal cs)
          else int (decimal v))"

definition plainChar :: "char \<Rightarrow> bool" where
  \<comment> \<open>an ASCII character that is not white space\<close>
  "plainChar c = (\<not> asciiSpace c \<and> (of_char c :: nat) < 128)"

subsection \<open>Facts about the library functions\<close>

lemma Split_not_Nil [simp]: "Split s sep \<noteq> []"
  by (induction s) (auto split: list.splits)

lemma Split_no_sep: "sep \<notin> set s \<Longrightarrow> Split s sep = [s]"
  by (induction s) auto

lemma Split_append_sep: "sep \<notin> set a \<Longrightarrow> Split (a @ sep # b) sep = a # Split b sep"
  by (induction a) auto

lemma Split_Contains: "sep \<in> set s \<Longrightarrow> \<exists>a b rest. Split s sep = a # b # rest"
proof (induction s)
  case Nil
  then show ?case by simp
next
  case (Cons c cs)
  show ?case
  proof (cases "c = sep")
    case True
    then show ?thesis by (cases "Split cs sep") auto
  next
    case False
    with Cons obtain a b rest where "Split cs sep = a # b # rest" by auto
    with False show ?thesis by simp
  qed
qed

lemma parseDigits_digits:
  "parseDigits maxVal n s = (u, None) \<Longrightarrow> list_all isDigit s"
  by (induction s arbitrary: n) (auto simp: Let_def split: if_splits)

lemma parseDigits_le:
  "parseDigits maxVal n s = (u, None) \<Longrightarrow> n \<le> maxVal \<Longrightarrow> u \<le> maxVal"
  by (induction s arbitrary: n) (auto simp: Let_def split: if_splits)


lemma foldl_decimal_ge: "n \<le> foldl (\<lambda>a c. a * 10 + digitVal c) n s"
proof (induction s arbitrary: n)
  case Nil
  then show ?case by simp
next
  case (Cons c cs)
  have "n \<le> n * 10 + digitVal c" by simp
  also have "\<dots> \<le> foldl (\<lambda>a c. a * 10 + digitVal c) (n * 10 + digitVal c) cs"
    by (rule Cons.IH)
  finally show ?case by simp
qed

lemma parseDigits_value:
  assumes "list_all isDigit s" "maxVal < 2 ^ 64" "n \<le> maxVal"
  shows "parseDigits maxVal n s =
           (if foldl (\<lambda>a c. a * 10 + digitVal c) n s \<le> maxVal
            then (foldl (\<lambda>a c. a * 10 + digitVal c) n s, None)
            else (maxVal, Some ErrRange))"
  using assms(1,3)
proof (induction s arbitrary: n)
  case Nil
  then show ?case by simp
next
  case (Cons c cs)
  let ?n1 = "n * 10 + digitVal c"
  have ge: "?n1 \<le> foldl (\<lambda>a c. a * 10 + digitVal c) ?n1 cs"
    by (rule foldl_decimal_ge)
  show ?case
  proof (cases "n \<ge> (2 ^ 64 - 1) div 10 + 1")
    case True
    then have "?n1 > maxVal" using assms(2) by simp
    with ge True Cons.prems show ?thesis by simp
  next
    case False
    show ?thesis
    proof (cases "?n1 \<ge> 2 ^ 64 \<or> ?n1 > maxVal")
      case True
      then have "?n1 > maxVal" using assms(2) by auto
      with ge True False Cons.prems show ?thesis by (simp add: Let_def)
    next
      case b: False
      with False Cons show ?thesis by (simp add: Let_def)
    qed
  qed
qed


lemma multiByteSpaces_bytes:
  "w \<in> set multiByteSpaces \<Longrightarrow> c \<in> set w \<Longrightarrow> \<not> plainChar c"
  by (auto simp: multiByteSpaces_def plainChar_def)

lemma multiByteSpaces_not_Nil: "w \<in> set multiByteSpaces \<Longrightarrow> w \<noteq> []"
  by (auto simp: multiByteSpaces_def)

lemma filter_hd_mem: "filter P xs = w # ws \<Longrightarrow> w \<in> set xs \<and> P w"
proof -
  assume "filter P xs = w # ws"
  then have "w \<in> set (filter P xs)" by simp
  then show ?thesis by simp
qed

lemma spaceWidth_cases:
  assumes "spaceWidth s \<noteq> 0"
  obtains c cs where "s = c # cs" "asciiSpace c" "spaceWidth s = 1"
  | w where "w \<in> set multiByteSpaces" "take (length w) s = w" "spaceWidth s = length w"
  using assms
  by (auto simp: spaceWidth_def split: list.splits if_splits dest!: filter_hd_mem)

lemma spaceWidthLast_cases:
  assumes "spaceWidthLast s \<noteq> 0"
  obtains c cs where "rev s = c # cs" "asciiSpace c" "spaceWidthLast s = 1"
  | w where "w \<in> set multiByteSpaces" "take (length w) (rev s) = rev w" "spaceWidthLast s = length w"
  using assms
  by (auto simp: spaceWidthLast_def split: list.splits if_splits dest!: filter_hd_mem)

lemma spaceWidth_plain: "plainChar c \<Longrightarrow> spaceWidth (c # cs) = 0"
proof (rule ccontr)
  assume p: "plainChar c" and "spaceWidth (c # cs) \<noteq> 0"
  from this(2) show False
  proof (cases rule: spaceWidth_cases)
    case (1 c' cs')
    with p show False by (simp add: plainChar_def)
  next
    case (2 w)
    then have "w \<noteq> []" by (simp add: multiByteSpaces_not_Nil)
    then obtain x xs where "w = x # xs" by (cases w) auto
    with 2 have "c \<in> set w" by auto
    with 2 p show False by (auto dest: multiByteSpaces_bytes)
  qed
qed

lemma spaceWidthLast_plain: "plainChar c \<Longrightarrow> spaceWidthLast (cs @ [c]) = 0"
proof (rule ccontr)
  assume p: "plainChar c" and "spaceWidthLast (cs @ [c]) \<noteq> 0"
  from this(2) show False
  proof (cases rule: spaceWidthLast_cases)
    case (1 c' cs')
    with p show False by (simp add: plainChar_def)
  next
    case (2 w)
    then have "w \<noteq> []" by (simp add: multiByteSpaces_not_Nil)
    then obtain x xs where "rev w = x # xs" by (cases "rev w") auto
    with 2 have "c \<in> set (rev w)" by auto
    with 2 p show False by (auto dest: multiByteSpaces_bytes)
  qed
qed

lemma TrimSpace_plain:
  assumes "s \<noteq> []" "plainChar (hd s)" "plainChar (last s)"
  shows "TrimSpace s = s"
proof -
  from assms obtain c cs where s: "s = c # cs" by (cases s) auto
  with assms have l: "spaceWidth s = 0" by (simp add: spaceWidth_plain)
  from assms have "s = butlast s @ [last s]" by simp
  with assms have "spaceWidthLast s = 0" by (metis spaceWidthLast_plain)
  with l show ?thesis by (simp add: TrimSpace_def TrimLeft.simps TrimRight.simps)
qed

lemma spaceWidth_set:
  assumes "plainChar c" "c \<in> set s"
  shows "c \<in> set (drop (spaceWidth s) s)"
proof (cases "spaceWidth s = 0")
  case True
  with assms show ?thesis by simp
next
  case False
  then show ?thesis
  proof (cases rule: spaceWidth_cases)
    case (1 c' cs')
    with assms show ?thesis by (auto simp: plainChar_def)
  next
    case (2 w)
    have "set s = set (take (length w) s) \<union> set (drop (length w) s)"
      by (metis append_take_drop_id set_append)
    with assms 2 show ?thesis by (auto dest: multiByteSpaces_bytes)
  qed
qed

lemma spaceWidthLast_set:
  assumes "plainChar c" "c \<in> set s"
  shows "c \<in> set (take (length s - spaceWidthLast s) s)"
proof (cases "spaceWidthLast s = 0")
  case True
  with assms show ?thesis by simp
next
  case False
  then show ?thesis
  proof (cases rule: spaceWidthLast_cases)
    case (1 c' cs')
    then have "s = rev cs' @ [c']" by (metis rev.simps(2) rev_rev_ident)
    with assms 1 show ?thesis by (auto simp: plainChar_def)
  next
    case (2 w)
    have "set s = set (take (length s - length w) s) \<union> set (drop (length s - length w) s)"
      by (metis append_take_drop_id set_append)
    moreover have "drop (length s - length w) s = rev (take (length w) (rev s))"
      by (simp add: take_rev)
    ultimately show ?thesis using assms 2 by (auto dest: multiByteSpaces_bytes)
  qed
qed

lemma TrimLeft_set: "plainChar c \<Longrightarrow> c \<in> set s \<Longrightarrow> c \<in> set (TrimLeft s)"
proof (induction s rule: TrimLeft.induct)
  case (1 s)
  then show ?case
    by (cases "spaceWidth s = 0") (simp_all add: TrimLeft.simps [of s] spaceWidth_set)
qed

lemma TrimRight_set: "plainChar c \<Longrightarrow> c \<in> set s \<Longrightarrow> c \<in> set (TrimRight s)"
proof (induction s rule: TrimRight.induct)
  case (1 s)
  then show ?case
    by (cases "spaceWidthLast s = 0") (simp_all add: TrimRight.simps [of s] spaceWidthLast_set)
qed

lemma TrimSpace_set: "plainChar c \<Longrightarrow> c \<in> set s \<Longrightarrow> c \<in> set (TrimSpace s)"
  by (simp add: TrimSpace_def TrimLeft_set TrimRight_set)


lemma wrap64_id: "in_int64 x \<Longrightarrow> wrap64 x = x"
  by (simp add: wrap64_def in_int64_def)

lemma parseDigits_range:
  "parseDigits maxVal n s = (u, Some ErrRange) \<Longrightarrow> u = maxVal"
  by (induction s arbitrary: n) (auto simp: Let_def split: if_splits)

lemma ParseUint_range: "ParseUint s 16 = (u, Some ErrRange) \<Longrightarrow> u = 65535"
  by (auto simp: ParseUint_def split: if_splits dest: parseDigits_range)

lemma ParseInt_None_isInteger:
  assumes "snd (ParseInt v 16) = None"
  shows "isInteger v"
proof (cases v)
  case Nil
  with assms show ?thesis by (simp add: ParseInt_def)
next
  case (Cons c cs)
  define s' where "s' = (if c = CHR ''+'' \<or> c = CHR ''-'' then cs else v)"
  obtain un err where pu: "ParseUint s' 16 = (un, err)" by (cases "ParseUint s' 16")
  from assms Cons pu have "err = None"
    by (auto simp: ParseInt_def s'_def Let_def split: if_splits dest: ParseUint_range)
  with pu have "s' \<noteq> [] \<and> list_all isDigit s'"
    by (auto simp: ParseUint_def split: if_splits dest: parseDigits_digits)
  with Cons show ?thesis
    by (auto simp: isInteger_def s'_def split: if_splits)
qed

lemma ParseUint_digits:
  assumes "s \<noteq> []" "list_all isDigit s"
  shows "ParseUint s 16 = (if decimal s \<le> 65535 then (decimal s, None) else (65535, Some ErrRange))"
  using assms by (simp add: ParseUint_def parseDigits_value decimal_def)

lemma isDigit_not_sign: "isDigit c \<Longrightarrow> c \<noteq> CHR ''+'' \<and> c \<noteq> CHR ''-''"
  by (auto simp: isDigit_def)

lemma ParseInt_integer:
  assumes "isInteger v"
  shows "ParseInt v 16 =
           (if - 32768 \<le> intValue v \<and> intValue v \<le> 32767 then (intValue v, None)
            else (if intValue v < 0 then - 32768 else 32767, Some ErrRange))"
proof -
  from assms obtain c cs where v: "v = c # cs" by (cases v) (auto simp: isInteger_def)
  show ?thesis
  proof (cases "c = CHR ''+'' \<or> c = CHR ''-''")
    case True
    with assms v have d: "cs \<noteq> []" "list_all isDigit cs" by (auto simp: isInteger_def)
    show ?thesis
      using True v ParseUint_digits [OF d]
      by (auto simp: ParseInt_def intValue_def Let_def wrap64_id in_int64_def)
  next
    case False
    with assms v have d: "v \<noteq> []" "list_all isDigit v" by (auto simp: isInteger_def)
    show ?thesis
      using False v ParseUint_digits [OF d]
      by (auto simp: ParseInt_def intValue_def Let_def wrap64_id in_int64_def)
  qed
qed

section \<open>parseConcurrency\<close>

text \<open>
  The loop over the parts of the concurrency flag. The map built so far is returned
  with the error, as the Go function does. \<open>nameValue[0]\<close> and \<open>nameValue[1]\<close>
  exist because the part contains an \<open>=\<close>; the last branch is the panic Go would
  raise otherwise.
\<close>

fun parseParts :: "(string \<rightharpoonup> int) \<Rightarrow> string list \<Rightarrow> (string \<rightharpoonup> int) \<times> error option" where
  "parseParts concurrency [] = (concurrency, None)"
| "parseParts concurrency (part # parts) =
     (if \<not> Contains part CHR ''='' then (concurrency, Some ParsingConcurency)
      else
        (case Split part CHR ''='' of
           n0 # v0 # _ \<Rightarrow>
             (let n = TrimSpace n0; v = TrimSpace v0
              in if n = [] \<or> v = [] then (concurrency, Some ParsingConcurency)
                 else (case ParseInt v 16 of
                         (_, Some err) \<Rightarrow> (concurrency, Some err)
                       | (numProcs, None) \<Rightarrow> parseParts (concurrency(n \<mapsto> numProcs)) parts))
         | _ \<Rightarrow> (concurrency, Some IndexOutOfRange)))"

definition parseConcurrency :: "string \<Rightarrow> (string \<rightharpoonup> int) \<times> error option" where
  "parseConcurrency v =
     (if TrimSpace v = [] then (Map.empty, None)
      else parseParts Map.empty (Split v CHR '',''))"

text \<open>
  The name and the value of a part as \<open>parseConcurrency\<close> reads them: the text before
  the first \<open>=\<close> and the text between the first and the second \<open>=\<close> (or the end
  of the part), both trimmed; \<open>None\<close> when the part has no \<open>=\<close>.
\<close>

definition partFields :: "string \<Rightarrow> (string \<times> string) option" where
  "partFields part =
     (case Split part CHR ''='' of
        n0 # v0 # _ \<Rightarrow> Some (TrimSpace n0, TrimSpace v0)
      | _ \<Rightarrow> None)"

definition accepted :: "string \<Rightarrow> bool" where
  "accepted part =
     (case partFields part of
        None \<Rightarrow> False
      | Some (n, v) \<Rightarrow> n \<noteq> [] \<and> v \<noteq> [] \<and> snd (ParseInt v 16) = None)"

definition badFields :: "string \<Rightarrow> bool" where
  \<comment> \<open>as \<open>parseConcurrency\<close> reads the part: it has no \<open>=\<close>, or its first field is empty,
    or its second field is empty or no integer; later fields are not looked at\<close>
  "badFields part =
     (case partFields part of
        None \<Rightarrow> True
      | Some (n, v) \<Rightarrow> n = [] \<or> v = [] \<or> \<not> isInteger v)"

text \<open>
  The claims read a part as \<open>name=value\<close>: the name is the text before the first \<open>=\<close>
  and the value is all the text after it. A part is well formed when it has an \<open>=\<close>, a
  name, and a value that is an integer.
\<close>

definition statedName :: "string \<Rightarrow> string" where
  "statedName part = takeWhile (\<lambda>c. c \<noteq> CHR ''='') part"

definition statedValue :: "string \<Rightarrow> string" where
  "statedValue part = tl (dropWhile (\<lambda>c. c \<noteq> CHR ''='') part)"

definition wellFormedPart :: "string \<Rightarrow> bool" where
  "wellFormedPart part =
     (Contains part CHR ''='' \<and> TrimSpace (statedName part) \<noteq> [] \<and>
      TrimSpace (statedValue part) \<noteq> [] \<and> isInteger (TrimSpace (statedValue part)))"

lemma partFields_None: "partFields part = None \<longleftrightarrow> \<not> Contains part CHR ''=''"
proof (cases "CHR ''='' \<in> set part")
  case True
  from Split_Contains [OF this] obtain a b rest where "Split part CHR ''='' = a # b # rest"
    by blast
  with True show ?thesis by (simp add: partFields_def Contains_def)
next
  case False
  then show ?thesis by (simp add: partFields_def Contains_def Split_no_sep)
qed

lemma parseParts_Cons:
  "parseParts m (part # parts) =
     (case partFields part of
        None \<Rightarrow> (m, Some ParsingConcurency)
      | Some (n, v) \<Rightarrow>
          if n = [] \<or> v = [] then (m, Some ParsingConcurency)
          else (case ParseInt v 16 of
                  (_, Some err) \<Rightarrow> (m, Some err)
                | (numProcs, None) \<Rightarrow> parseParts (m(n \<mapsto> numProcs)) parts))"
proof (cases "Contains part CHR ''=''")
  case False
  then have "partFields part = None" by (simp add: partFields_None)
  with False show ?thesis by simp
next
  case True
  then have "CHR ''='' \<in> set part" by (simp add: Contains_def)
  from Split_Contains [OF this] obtain a b rest where "Split part CHR ''='' = a # b # rest"
    by blast
  with True show ?thesis by (simp add: partFields_def Let_def)
qed

declare parseParts.simps(2) [simp del]

lemma parseParts_accepted:
  "snd (parseParts m parts) = None \<longleftrightarrow> list_all accepted parts"
proof (induction parts arbitrary: m)
  case Nil
  then show ?case by simp
next
  case (Cons part parts)
  show ?case
  proof (cases "partFields part")
    case None
    then show ?thesis by (simp add: parseParts_Cons accepted_def)
  next
    case (Some nv)
    obtain n v where nv: "nv = (n, v)" by (cases nv)
    obtain x e where pi: "ParseInt v 16 = (x, e)" by (cases "ParseInt v 16")
    show ?thesis
    proof (cases "n = [] \<or> v = [] \<or> e \<noteq> None")
      case True
      with Some nv pi show ?thesis
        by (auto simp: parseParts_Cons accepted_def)
    next
      case False
      with Some nv pi have "parseParts m (part # parts) = parseParts (m(n \<mapsto> x)) parts"
        by (auto simp: parseParts_Cons)
      then have "snd (parseParts m (part # parts)) = None
          \<longleftrightarrow> snd (parseParts (m(n \<mapsto> x)) parts) = None"
        by (simp only:)
      also have "\<dots> \<longleftrightarrow> list_all accepted parts" by (rule Cons.IH)
      also from False Some nv pi have "\<dots> \<longleftrightarrow> list_all accepted (part # parts)"
        by (simp add: accepted_def)
      finally show ?thesis .
    qed
  qed
qed

lemma badFields_not_accepted: "badFields part \<Longrightarrow> \<not> accepted part"
  by (auto simp: badFields_def accepted_def split: option.splits
      dest: ParseInt_None_isInteger)

text \<open>
  The two readings of a part agree as long as its value has no further \<open>=\<close>.
\<close>

lemma Split_stated:
  assumes "CHR ''='' \<in> set part" and "CHR ''='' \<notin> set (statedValue part)"
  shows "Split part CHR ''='' = [statedName part, statedValue part]"
proof -
  let ?P = "\<lambda>c. c \<noteq> CHR ''=''"
  from assms(1) have ne: "dropWhile ?P part \<noteq> []" by (auto simp: dropWhile_eq_Nil_conv)
  then have "hd (dropWhile ?P part) = CHR ''=''" using hd_dropWhile [of ?P part] by simp
  with ne have "dropWhile ?P part = CHR ''='' # statedValue part"
    by (cases "dropWhile ?P part") (simp_all add: statedValue_def)
  then have "part = statedName part @ CHR ''='' # statedValue part"
    using takeWhile_dropWhile_id [of ?P part] by (simp add: statedName_def)
  moreover have "CHR ''='' \<notin> set (statedName part)"
    by (auto simp: statedName_def dest: set_takeWhileD)
  ultimately have "Split part CHR ''='' = statedName part # Split (statedValue part) CHR ''=''"
    using Split_append_sep [of "CHR ''=''" "statedName part" "statedValue part"] by simp
  with assms(2) show ?thesis by (simp add: Split_no_sep)
qed

lemma badFields_stated:
  assumes "CHR ''='' \<notin> set (statedValue part)"
  shows "badFields part \<longleftrightarrow> \<not> wellFormedPart part"
proof (cases "CHR ''='' \<in> set part")
  case True
  from Split_stated [OF True assms]
  have "partFields part = Some (TrimSpace (statedName part), TrimSpace (statedValue part))"
    by (simp add: partFields_def)
  with True show ?thesis by (auto simp: badFields_def wellFormedPart_def Contains_def)
next
  case False
  then have "partFields part = None" by (simp add: partFields_None Contains_def)
  with False show ?thesis by (simp add: badFields_def wellFormedPart_def Contains_def)
qed

lemma ParseInt_16_range:
  assumes "ParseInt v 16 = (x, None)"
  shows "- 32768 \<le> x \<and> x \<le> 32767"
proof -
  from assms have "isInteger v" by (simp add: ParseInt_None_isInteger)
  from ParseInt_integer [OF this] assms show ?thesis by (auto split: if_splits)
qed

lemma parseParts_range:
  assumes "parseParts m parts = (m', e)" "m' k = Some x"
    and "\<And>k x. m k = Some x \<Longrightarrow> - 32768 \<le> x \<and> x \<le> 32767"
  shows "- 32768 \<le> x \<and> x \<le> 32767"
  using assms
proof (induction parts arbitrary: m)
  case Nil
  then show ?case by auto
next
  case (Cons part parts)
  show ?case
  proof (cases "parseParts m (part # parts) = (m, e)")
    case True
    with Cons.prems have "m k = Some x" by simp
    then show ?thesis by (rule Cons.prems(3))
  next
    case False
    with Cons.prems(1) obtain n v y where f: "partFields part = Some (n, v)"
      and pi: "ParseInt v 16 = (y, None)"
      and rec: "parseParts (m(n \<mapsto> y)) parts = (m', e)"
      by (auto simp: parseParts_Cons split: option.splits if_splits prod.splits)
    from pi have y: "- 32768 \<le> y \<and> y \<le> 32767" by (rule ParseInt_16_range)
    from rec Cons.prems(2) show ?thesis
    proof (rule Cons.IH)
      fix k' x'
      assume "(m(n \<mapsto> y)) k' = Some x'"
      with y Cons.prems(3) show "- 32768 \<le> x' \<and> x' \<le> 32767"
        by (auto split: if_splits)
    qed
  qed
qed

section \<open>The supervisor: data\<close>

subsection \<open>strconv.Itoa\<close>

function natDigits :: "nat \<Rightarrow> string" where
  "natDigits n =
     (if n < 10 then [''0123456789'' ! n]
      else natDigits (n div 10) @ [''0123456789'' ! (n mod 10)])"
  by pat_completeness auto
termination
  by (relation "measure id") auto

declare natDigits.simps [simp del]

definition Itoa :: "int \<Rightarrow> string" where
  \<comment> \<open>also what \<open>fmt\<close> prints for an \<open>int\<close> under \<open>%d\<close> and in \<open>Sprint\<close>\<close>
  "Itoa i = (if i < 0 then CHR ''-'' # natDigits (nat (- i)) else natDigits (nat i))"

subsection \<open>Flags, Procfile entries, processes\<close>

record Flags =
  flagProcfile :: string
  flagEnv :: string
  flagPort :: int
  flagConcurrency :: string
  flagRestart :: bool
  osHaveSigTerm :: bool \<comment> \<open>a constant of the platform, declared outside start.go\<close>

record ProcfileEntry =
  Name :: string
  Command :: string

type_synonym Env = "string \<rightharpoonup> string"

datatype message =
    SystemOutput string \<comment> \<open>a line given to \<open>of.SystemOutput\<close>\<close>
  | Println string \<comment> \<open>a line printed with \<open>fmt.Println\<close>\<close>

record Outlet =
  outletName :: string
  outletIndex :: int
  outletIsError :: bool

text \<open>
  Modelled from the spec: \<open>OutletFactory.CreateOutlet\<close> (declared outside start.go)
  gives a sink tagged with the replica's display name, its slot and whether it is
  the error stream.
\<close>

definition CreateOutlet :: "string \<Rightarrow> int \<Rightarrow> bool \<Rightarrow> Outlet" where
  "CreateOutlet name i isError = \<lparr>outletName = name, outletIndex = i, outletIsError = isError\<rparr>"

datatype child = NotStarted | Alive | Exited | Reaped

record Process =
  psCommand :: string
  psEnv :: Env
  psStdout :: "Outlet option"
  psStderr :: "Outlet option"
  psChild :: child \<comment> \<open>the operating system's child process\<close>
  sigTerms :: nat \<comment> \<open>graceful terminate signals sent to the child\<close>
  sigKills :: nat \<comment> \<open>force kills sent to the child\<close>

text \<open>
  Modelled from the spec: the process handle (\<open>NewProcess\<close>, \<open>Start\<close>,
  \<open>SendSigTerm\<close>, \<open>SendSigKill\<close> and \<open>cmd.Process.Kill\<close> are declared outside
  start.go). The handle owns one child with its command and environment; a launch
  that fails is surfaced as a natural exit. What the child does with a signal is the
  operating system's business: the handle only counts what was sent. The working
  directory and the disconnected stdin are left out.
\<close>

definition NewProcess :: "string \<Rightarrow> Env \<Rightarrow> Process" where
  "NewProcess command env =
     \<lparr>psCommand = command, psEnv = env, psStdout = None, psStderr = None,
      psChild = NotStarted, sigTerms = 0, sigKills = 0\<rparr>"

definition Start :: "Process \<Rightarrow> Process" where
  "Start p = p\<lparr>psChild := Alive\<rparr>"

definition SendSigTerm :: "Process \<Rightarrow> Process" where
  "SendSigTerm p = p\<lparr>sigTerms := sigTerms p + 1\<rparr>"

definition SendSigKill :: "Process \<Rightarrow> Process" where
  "SendSigKill p = p\<lparr>sigKills := sigKills p + 1\<rparr>"

definition Kill :: "Process \<Rightarrow> Process" where
  "Kill p = p\<lparr>sigKills := sigKills p + 1\<rparr>"

subsection \<open>The Forego struct and SignalShutdown\<close>

datatype chan = Open | Closed

record Forego =
  shutdown :: bool \<comment> \<open>the \<open>sync.Once\<close>: whether its \<open>Do\<close> has run\<close>
  teardown :: chan
  teardownNow :: chan
  wg :: int \<comment> \<open>the counter of the \<open>sync.WaitGroup\<close>\<close>

text \<open>
  \<open>close\<close> of a closed channel panics: \<open>None\<close>. \<open>sync.Once.Do\<close> runs its argument at
  most once and serialises its callers, so a call of \<open>SignalShutdown\<close> is one atomic
  step whichever goroutine makes it.
\<close>

definition close_chan :: "chan \<Rightarrow> chan option" where
  "close_chan c = (case c of Open \<Rightarrow> Some Closed | Closed \<Rightarrow> None)"

definition SignalShutdown :: "Forego \<Rightarrow> Forego option" where
  "SignalShutdown f =
     (if shutdown f then Some f
      else (case close_chan (teardown f) of
              None \<Rightarrow> None
            | Some c \<Rightarrow> Some (f\<lparr>shutdown := True, teardown := c\<rparr>)))"

subsection \<open>Goroutines\<close>

text \<open>
  One call of \<open>startProcess\<close> makes a process, its \<open>finished\<close> channel and two
  goroutines: the waiter (\<open>ps.Wait()\<close>, then the deferred \<open>close(finished)\<close>) and the
  coordinator, which is at its outer \<open>select\<close>, at its inner \<open>select\<close> (with the time
  at which \<open>time.After(shutdownGraceTime)\<close> fires), at its deferred \<open><-finished\<close>, or
  done (its deferred \<open>f.wg.Done()\<close> has run).
\<close>

datatype waiter = Waiting | Closing | WaiterDone

datatype coord = AtSelect | AtGrace nat | AtDefer | CoordDone

record replica =
  r_idx :: int \<comment> \<open>the arguments of the call\<close>
  r_procNum :: int
  r_proc :: ProcfileEntry
  r_port :: int
  r_procName :: string
  r_ps :: Process
  r_finished :: chan
  r_waiter :: waiter
  r_coord :: coord
  r_parent :: "nat option" \<comment> \<open>the coordinator that made the call; \<open>None\<close> for \<open>runStart\<close>\<close>

datatype call = Call int int ProcfileEntry \<comment> \<open>\<open>idx\<close>, \<open>procNum\<close>, \<open>proc\<close> of a call of \<open>startProcess\<close>\<close>

datatype main_pc =
    Fanout "call list" \<comment> \<open>in the loops, with the calls still to make; then at \<open><-f.teardown\<close>\<close>
  | AwaitWg \<comment> \<open>at \<open>f.wg.Wait()\<close>\<close>
  | Returned

record world =
  w_flags :: Flags
  w_env :: Env
  w_f :: Forego
  w_replicas :: "replica list" \<comment> \<open>the calls of \<open>startProcess\<close> so far, in order\<close>
  w_out :: "message list"
  w_main :: main_pc
  w_first :: bool \<comment> \<open>\<open>first\<close> and \<open>once\<close> of \<open>monitorInterrupt\<close>\<close>
  w_once :: bool
  w_now :: nat \<comment> \<open>the time in nanoseconds\<close>
  w_panicked :: bool

definition Second :: nat where
  "Second = 1000000000"

definition shutdownGraceTime :: nat where
  "shutdownGraceTime = 3 * Second"

section \<open>The supervisor: operations\<close>

subsection \<open>startProcess\<close>

text \<open>
  The body of \<open>startProcess\<close> up to the start of its two goroutines; \<open>parent\<close> is the
  coordinator that calls it (under the restart flag), or \<open>None\<close> for \<open>runStart\<close>.
  \<open>fmt.Sprint\<close> puts no space between two operands of which one is a string, so the
  display name is the template's name, a dot and \<open>procNum+1\<close> in decimal.
\<close>

definition startProcess :: "int \<Rightarrow> int \<Rightarrow> ProcfileEntry \<Rightarrow> nat option \<Rightarrow> world \<Rightarrow> world" where
  "startProcess idx procNum proc parent w =
     (let port = wrap64 (flagPort (w_flags w) + wrap64 (idx * 100));
          ps0 = NewProcess (Command proc) (w_env w);
          procName = Name proc @ ''.'' @ Itoa (wrap64 (procNum + 1));
          ps1 = ps0\<lparr>psEnv := (psEnv ps0)(''PORT'' \<mapsto> Itoa port),
                    psStdout := Some (CreateOutlet procName idx False),
                    psStderr := Some (CreateOutlet procName idx True)\<rparr>;
          line = SystemOutput (''starting '' @ procName @ '' on port '' @ Itoa port);
          ps2 = Start ps1;
          r = \<lparr>r_idx = idx, r_procNum = procNum, r_proc = proc, r_port = port,
               r_procName = procName, r_ps = ps2, r_finished = Open, r_waiter = Waiting,
               r_coord = AtSelect, r_parent = parent\<rparr>
      in w\<lparr>w_out := w_out w @ [line],
           w_replicas := w_replicas w @ [r],
           w_f := (w_f w)\<lparr>wg := wg (w_f w) + 1\<rparr>\<rparr>)"

subsection \<open>runStart\<close>

text \<open>
  The two loops of \<open>runStart\<close> make their calls of \<open>startProcess\<close> in a fixed order
  that depends on the Procfile, the concurrency map and the filter only.
\<close>

definition numProcs :: "(string \<rightharpoonup> int) \<Rightarrow> ProcfileEntry \<Rightarrow> int" where
  "numProcs concurrency proc = (case concurrency (Name proc) of Some v \<Rightarrow> v | None \<Rightarrow> 1)"

function innerLoop :: "string \<Rightarrow> int \<Rightarrow> ProcfileEntry \<Rightarrow> int \<Rightarrow> int \<Rightarrow> call list" where
  "innerLoop singleton idx proc n i =
     (if i < n then
        (if singleton = [] \<or> singleton = Name proc then [Call idx i proc] else []) @
        innerLoop singleton idx proc n (i + 1)
      else [])"
  by pat_completeness auto
termination
  by (relation "measure (\<lambda>(singleton, idx, proc, n, i). nat (n - i))") auto

declare innerLoop.simps [simp del]

fun outerLoop :: "(string \<rightharpoonup> int) \<Rightarrow> string \<Rightarrow> int \<Rightarrow> ProcfileEntry list \<Rightarrow> call list" where
  "outerLoop concurrency singleton idx [] = []"
| "outerLoop concurrency singleton idx (proc # entries) =
     innerLoop singleton idx proc (numProcs concurrency proc) 0 @
     outerLoop concurrency singleton (idx + 1) entries"

datatype outcome =
    Exit error \<comment> \<open>the program has exited on a fatal error, before any process was started\<close>
  | Started world

text \<open>
  Modelled from the spec: \<open>handleError\<close> and \<open>OutletFactory.ErrorOutput\<close> (declared
  outside start.go) report a fatal configuration error and terminate the program at
  once; \<open>Procfile.HasProcess\<close> says whether the Procfile has a process of that name.
\<close>

definition handleError :: "error option \<Rightarrow> outcome \<Rightarrow> outcome" where
  "handleError err rest = (case err of Some e \<Rightarrow> Exit e | None \<Rightarrow> rest)"

definition HasProcess :: "ProcfileEntry list \<Rightarrow> string \<Rightarrow> bool" where
  "HasProcess entries name = (\<exists>proc \<in> set entries. Name proc = name)"

definition newForego :: Forego where
  "newForego = \<lparr>shutdown = False, teardown = Open, teardownNow = Open, wg = 0\<rparr>"

text \<open>
  \<open>runStart\<close> up to its loops. The results of \<open>ReadProcfile(flagProcfile)\<close> and of
  \<open>ReadEnv(flagEnv)\<close> are parameters, and so is the time \<open>t\<close> at which it runs.
\<close>

definition runStart ::
  "Flags \<Rightarrow> ProcfileEntry list \<times> error option \<Rightarrow> Env \<times> error option \<Rightarrow> nat \<Rightarrow> string list \<Rightarrow> outcome" where
  "runStart fl pf env t args =
     handleError (snd pf)
      (handleError (snd env)
        (case parseConcurrency (flagConcurrency fl) of (concurrency, err) \<Rightarrow>
           handleError err
             (let singleton = (case args of [] \<Rightarrow> [] | a # _ \<Rightarrow> a)
              in if args \<noteq> [] \<and> \<not> HasProcess (fst pf) singleton
                 then Exit (NoSuchProcess singleton)
                 else Started
                   \<lparr>w_flags = fl, w_env = fst env, w_f = newForego, w_replicas = [],
                    w_out = [],
                    w_main = Fanout (outerLoop concurrency singleton 0 (fst pf)),
                    w_first = True, w_once = False, w_now = t, w_panicked = False\<rparr>)))"

subsection \<open>The steps of the goroutines\<close>

datatype event =
    Tick nat \<comment> \<open>time passes\<close>
  | Interrupt \<comment> \<open>\<open>monitorInterrupt\<close> takes an \<open>os.Interrupt\<close> from its channel\<close>
  | MainStart \<comment> \<open>\<open>runStart\<close> makes the next call of \<open>startProcess\<close> of its loops\<close>
  | MainTeardown \<comment> \<open>\<open>runStart\<close> passes \<open><-f.teardown\<close>\<close>
  | MainWait \<comment> \<open>\<open>f.wg.Wait()\<close> returns, and \<open>runStart\<close> with it\<close>
  | ChildExit nat \<comment> \<open>the child of a replica terminates\<close>
  | WaitReturn nat \<comment> \<open>\<open>ps.Wait()\<close> returns in the waiter\<close>
  | CloseFinished nat \<comment> \<open>the waiter's deferred \<open>close(finished)\<close>\<close>
  | SelFinished nat \<comment> \<open>outer select, \<open>case <-finished\<close>\<close>
  | SelTeardown nat \<comment> \<open>outer select, \<open>case <-f.teardown\<close>\<close>
  | SelTimer nat \<comment> \<open>inner select, \<open>case <-time.After(shutdownGraceTime)\<close>\<close>
  | SelTeardownNow nat \<comment> \<open>inner select, \<open>case <-f.teardownNow\<close>\<close>
  | SelFinished2 nat \<comment> \<open>inner select, \<open>case <-finished\<close>\<close>
  | Complete nat \<comment> \<open>the coordinator's deferred \<open><-finished\<close> and \<open>f.wg.Done()\<close>\<close>

definition panic :: "world \<Rightarrow> world" where
  "panic w = w\<lparr>w_panicked := True\<rparr>"

definition signalShutdown :: "world \<Rightarrow> world" where
  \<comment> \<open>\<open>f.SignalShutdown()\<close> in the world\<close>
  "signalShutdown w = (case SignalShutdown (w_f w) of None \<Rightarrow> panic w | Some f' \<Rightarrow> w\<lparr>w_f := f'\<rparr>)"

definition updReplica :: "nat \<Rightarrow> (replica \<Rightarrow> replica) \<Rightarrow> world \<Rightarrow> world" where
  "updReplica p g w = w\<lparr>w_replicas := (w_replicas w)[p := g (w_replicas w ! p)]\<rparr>"

definition say :: "string \<Rightarrow> world \<Rightarrow> world" where
  \<comment> \<open>\<open>of.SystemOutput\<close>\<close>
  "say line w = w\<lparr>w_out := w_out w @ [SystemOutput line]\<rparr>"

definition monitorInterrupt :: "world \<Rightarrow> world" where
  \<comment> \<open>one round of the loop of \<open>monitorInterrupt\<close>, for \<open>sig = os.Interrupt\<close>\<close>
  "monitorInterrupt w =
     (let w1 = w\<lparr>w_out := w_out w @ [Println ''      | ctrl-c detected'']\<rparr>;
          w2 = (if \<not> w_first w1 \<and> \<not> w_once w1
                then (case close_chan (teardownNow (w_f w1)) of
                        None \<Rightarrow> panic (w1\<lparr>w_once := True\<rparr>)
                      | Some c \<Rightarrow> w1\<lparr>w_once := True, w_f := (w_f w1)\<lparr>teardownNow := c\<rparr>\<rparr>)
                else w1)
      in if w_panicked w2 then w2 else (signalShutdown w2)\<lparr>w_first := False\<rparr>)"

definition mainStart :: "world \<Rightarrow> world option" where
  "mainStart w =
     (case w_main w of
        Fanout (Call idx i proc # calls) \<Rightarrow>
          Some (startProcess idx i proc None (w\<lparr>w_main := Fanout calls\<rparr>))
      | _ \<Rightarrow> None)"

definition mainTeardown :: "world \<Rightarrow> world option" where
  "mainTeardown w =
     (if w_main w = Fanout [] \<and> teardown (w_f w) = Closed
      then Some (say ''shutting down'' (w\<lparr>w_main := AwaitWg\<rparr>))
      else None)"

definition mainWait :: "world \<Rightarrow> world option" where
  "mainWait w =
     (if w_main w = AwaitWg \<and> wg (w_f w) = 0 then Some (w\<lparr>w_main := Returned\<rparr>) else None)"

definition childExit :: "replica \<Rightarrow> replica option" where
  "childExit r =
     (if psChild (r_ps r) = Alive then Some (r\<lparr>r_ps := (r_ps r)\<lparr>psChild := Exited\<rparr>\<rparr>) else None)"

definition waitReturn :: "replica \<Rightarrow> replica option" where
  "waitReturn r =
     (if r_waiter r = Waiting \<and> psChild (r_ps r) = Exited
      then Some (r\<lparr>r_ps := (r_ps r)\<lparr>psChild := Reaped\<rparr>, r_waiter := Closing\<rparr>)
      else None)"

definition closeFinished :: "nat \<Rightarrow> world \<Rightarrow> world option" where
  "closeFinished p w =
     (let r = w_replicas w ! p
      in if r_waiter r = Closing
         then (case close_chan (r_finished r) of
                 None \<Rightarrow> Some (panic w)
               | Some c \<Rightarrow> Some (updReplica p (\<lambda>r. r\<lparr>r_finished := c, r_waiter := WaiterDone\<rparr>) w))
         else None)"

definition selFinished :: "nat \<Rightarrow> world \<Rightarrow> world option" where
  "selFinished p w =
     (let r = w_replicas w ! p
      in if r_coord r = AtSelect \<and> r_finished r = Closed
         then (if flagRestart (w_flags w)
               then Some (updReplica p (\<lambda>r. r\<lparr>r_coord := AtDefer\<rparr>)
                           (startProcess (r_idx r) (r_procNum r) (r_proc r) (Some p) w))
               else Some (updReplica p (\<lambda>r. r\<lparr>r_coord := AtDefer\<rparr>) (signalShutdown w)))
         else None)"

definition selTeardown :: "nat \<Rightarrow> world \<Rightarrow> world option" where
  "selTeardown p w =
     (let r = w_replicas w ! p
      in if r_coord r = AtSelect \<and> teardown (w_f w) = Closed
         then (if \<not> osHaveSigTerm (w_flags w)
               then Some (updReplica p (\<lambda>r. r\<lparr>r_ps := Kill (r_ps r), r_coord := AtDefer\<rparr>)
                           (say (''Killing '' @ r_procName r) w))
               else Some (updReplica p
                           (\<lambda>r. r\<lparr>r_ps := SendSigTerm (r_ps r),
                                  r_coord := AtGrace (w_now w + shutdownGraceTime)\<rparr>)
                           (say (''sending SIGTERM to '' @ r_procName r) w)))
         else None)"

definition forceKill :: "nat \<Rightarrow> world \<Rightarrow> world" where
  \<comment> \<open>the body of the two killing cases of the inner select\<close>
  "forceKill p w =
     updReplica p (\<lambda>r. r\<lparr>r_ps := SendSigKill (r_ps r), r_coord := AtDefer\<rparr>)
       (say (''Killing '' @ r_procName (w_replicas w ! p)) w)"

definition selTimer :: "nat \<Rightarrow> world \<Rightarrow> world option" where
  "selTimer p w =
     (case r_coord (w_replicas w ! p) of
        AtGrace deadline \<Rightarrow> if deadline \<le> w_now w then Some (forceKill p w) else None
      | _ \<Rightarrow> None)"

definition selTeardownNow :: "nat \<Rightarrow> world \<Rightarrow> world option" where
  "selTeardownNow p w =
     (case r_coord (w_replicas w ! p) of
        AtGrace deadline \<Rightarrow>
          if teardownNow (w_f w) = Closed then Some (forceKill p w) else None
      | _ \<Rightarrow> None)"

definition selFinished2 :: "nat \<Rightarrow> world \<Rightarrow> world option" where
  "selFinished2 p w =
     (case r_coord (w_replicas w ! p) of
        AtGrace deadline \<Rightarrow>
          if r_finished (w_replicas w ! p) = Closed
          then Some (updReplica p (\<lambda>r. r\<lparr>r_coord := AtDefer\<rparr>) w) else None
      | _ \<Rightarrow> None)"

definition complete :: "nat \<Rightarrow> world \<Rightarrow> world option" where
  "complete p w =
     (let r = w_replicas w ! p
      in if r_coord r = AtDefer \<and> r_finished r = Closed
         then (if wg (w_f w) - 1 < 0 then Some (panic w)
               else Some (updReplica p (\<lambda>r. r\<lparr>r_coord := CoordDone\<rparr>)
                           (w\<lparr>w_f := (w_f w)\<lparr>wg := wg (w_f w) - 1\<rparr>\<rparr>)))
         else None)"

definition onReplica :: "nat \<Rightarrow> (replica \<Rightarrow> replica option) \<Rightarrow> world \<Rightarrow> world option" where
  "onReplica p g w =
     (case g (w_replicas w ! p) of
        None \<Rightarrow> None
      | Some r' \<Rightarrow> Some (w\<lparr>w_replicas := (w_replicas w)[p := r']\<rparr>))"

fun replicaOf :: "event \<Rightarrow> nat option" where
  "replicaOf (ChildExit p) = Some p"
| "replicaOf (WaitReturn p) = Some p"
| "replicaOf (CloseFinished p) = Some p"
| "replicaOf (SelFinished p) = Some p"
| "replicaOf (SelTeardown p) = Some p"
| "replicaOf (SelTimer p) = Some p"
| "replicaOf (SelTeardownNow p) = Some p"
| "replicaOf (SelFinished2 p) = Some p"
| "replicaOf (Complete p) = Some p"
| "replicaOf _ = None"

fun fire :: "event \<Rightarrow> world \<Rightarrow> world option" where
  "fire (Tick d) w = Some (w\<lparr>w_now := w_now w + d\<rparr>)"
| "fire Interrupt w = Some (monitorInterrupt w)"
| "fire MainStart w = mainStart w"
| "fire MainTeardown w = mainTeardown w"
| "fire MainWait w = mainWait w"
| "fire (ChildExit p) w = onReplica p childExit w"
| "fire (WaitReturn p) w = onReplica p waitReturn w"
| "fire (CloseFinished p) w = closeFinished p w"
| "fire (SelFinished p) w = selFinished p w"
| "fire (SelTeardown p) w = selTeardown p w"
| "fire (SelTimer p) w = selTimer p w"
| "fire (SelTeardownNow p) w = selTeardownNow p w"
| "fire (SelFinished2 p) w = selFinished2 p w"
| "fire (Complete p) w = complete p w"

text \<open>
  One step of the program: nothing runs once the program has panicked or \<open>runStart\<close>
  has returned (the program exits then), and an event of a replica needs the replica.
  \<open>None\<close> says that the event cannot happen in this state.
\<close>

definition step :: "event \<Rightarrow> world \<Rightarrow> world option" where
  "step e w =
     (if w_panicked w \<or> w_main w = Returned then None
      else (case replicaOf e of
              Some p \<Rightarrow> if p < length (w_replicas w) then fire e w else None
            | None \<Rightarrow> fire e w))"

fun exec :: "event list \<Rightarrow> world \<Rightarrow> world option" where
  "exec [] w = Some w"
| "exec (e # es) w = (case step e w of None \<Rightarrow> None | Some w' \<Rightarrow> exec es w')"

definition reachable :: "world \<Rightarrow> world \<Rightarrow> bool" where
  "reachable w0 w = (\<exists>es. exec es w0 = Some w)"

section \<open>Parsing the concurrency flag: properties\<close>

lemma isDigit_plain: "isDigit c \<Longrightarrow> plainChar c \<and> c \<noteq> CHR ''='' \<and> c \<noteq> CHR '',''"
  by (auto simp: isDigit_def plainChar_def asciiSpace_def)

lemma sign_plain: "plainChar CHR ''+''" "plainChar CHR ''-''" "plainChar CHR ''=''"
  by (simp_all add: plainChar_def asciiSpace_def)

lemma isInteger_chars:
  assumes "isInteger v" "c \<in> set v"
  shows "plainChar c \<and> c \<noteq> CHR ''='' \<and> c \<noteq> CHR '',''"
proof -
  from assms obtain d ds where v: "v = d # ds" by (cases v) auto
  from assms v have "c = CHR ''+'' \<or> c = CHR ''-'' \<or> isDigit c"
    by (auto simp: isInteger_def list_all_iff split: if_splits)
  then show ?thesis using sign_plain by (auto dest: isDigit_plain)
qed

lemma isInteger_TrimSpace:
  assumes "isInteger v"
  shows "TrimSpace v = v" and "v \<noteq> []"
proof -
  from assms show ne: "v \<noteq> []" by (auto simp: isInteger_def)
  then have "hd v \<in> set v" "last v \<in> set v" by simp_all
  with assms have "plainChar (hd v)" "plainChar (last v)" by (auto dest: isInteger_chars)
  with ne show "TrimSpace v = v" by (rule TrimSpace_plain)
qed

lemma TrimSpace_not_Nil: "plainChar c \<Longrightarrow> c \<in> set s \<Longrightarrow> TrimSpace s \<noteq> []"
  using TrimSpace_set [of c s] by auto

lemma parseConcurrency_single:
  assumes "isInteger v" "TrimSpace n \<noteq> []" "CHR ''='' \<notin> set n" "CHR '','' \<notin> set n"
  shows "parseConcurrency (n @ CHR ''='' # v) =
           (if - 32768 \<le> intValue v \<and> intValue v \<le> 32767
            then (Map.empty(TrimSpace n \<mapsto> intValue v), None)
            else (Map.empty, Some ErrRange))"
proof -
  let ?s = "n @ CHR ''='' # v"
  have ne: "TrimSpace ?s \<noteq> []"
    by (rule TrimSpace_not_Nil [of "CHR ''=''"]) (simp_all add: sign_plain)
  from assms(1) have nocomma: "CHR '','' \<notin> set v" and noeq: "CHR ''='' \<notin> set v"
    by (auto dest: isInteger_chars)
  with assms have parts: "Split ?s CHR '','' = [?s]"
    by (simp add: Split_no_sep)
  from assms noeq have "Split ?s CHR ''='' = [n, v]"
    by (simp add: Split_append_sep Split_no_sep)
  then have pf: "partFields ?s = Some (TrimSpace n, v)"
    using assms(1) by (simp add: partFields_def isInteger_TrimSpace)
  from assms(1) have "v \<noteq> []" by (rule isInteger_TrimSpace)
  with ne parts pf assms(2) ParseInt_integer [OF assms(1)] show ?thesis
    by (simp add: parseConcurrency_def parseParts_Cons)
qed

lemma parseConcurrency_accepted:
  "snd (parseConcurrency v) = None \<longleftrightarrow>
     TrimSpace v = [] \<or> list_all accepted (Split v CHR '','')"
  by (simp add: parseConcurrency_def parseParts_accepted)

lemma runStart_parse_error:
  "snd (parseConcurrency (flagConcurrency fl)) = Some e \<Longrightarrow>
     runStart fl (entries, None) (env, None) t args = Exit e"
  by (cases "parseConcurrency (flagConcurrency fl)") (simp add: runStart_def handleError_def)

subsection \<open>Claims about parseConcurrency\<close>

text \<open>
  What \<open>parseConcurrency\<close> does reject: a spec string (not empty or all white space) with
  a comma-separated part that has no \<open>=\<close>, or whose first field is empty, or whose second
  field is empty or no integer. \<open>runStart\<close> then exits on that error before it starts any
  process. A spec that is empty or all white space gives the empty mapping and no error.
\<close>

lemma parseConcurrency_rejects_bad_fields:
  "(TrimSpace v \<noteq> [] \<and> part \<in> set (Split v CHR '','') \<and> badFields part \<longrightarrow>
      (\<exists>e. snd (parseConcurrency v) = Some e \<and>
           runStart (fl\<lparr>flagConcurrency := v\<rparr>) (entries, None) (env, None) t args = Exit e)) \<and>
   (TrimSpace v = [] \<longrightarrow> parseConcurrency v = (Map.empty, None))"
proof (intro conjI impI)
  assume a: "TrimSpace v \<noteq> [] \<and> part \<in> set (Split v CHR '','') \<and> badFields part"
  then have "\<not> list_all accepted (Split v CHR '','')"
    by (auto simp: list_all_iff dest: badFields_not_accepted)
  with a have "snd (parseConcurrency v) \<noteq> None"
    by (simp add: parseConcurrency_accepted)
  then obtain e where e: "snd (parseConcurrency v) = Some e" by auto
  then have "runStart (fl\<lparr>flagConcurrency := v\<rparr>) (entries, None) (env, None) t args = Exit e"
    by (simp add: runStart_parse_error)
  with e show "\<exists>e. snd (parseConcurrency v) = Some e \<and>
      runStart (fl\<lparr>flagConcurrency := v\<rparr>) (entries, None) (env, None) t args = Exit e"
    by blast
next
  assume "TrimSpace v = []"
  then show "parseConcurrency v = (Map.empty, None)" by (simp add: parseConcurrency_def)
qed

lemma parseConcurrency_rejects_empty_value:
  "TrimSpace ''web=,api=2'' \<noteq> [] \<and> ''web='' \<in> set (Split ''web=,api=2'' CHR '','') \<and>
   badFields ''web='' \<and>
   snd (parseConcurrency ''web=,api=2'') = Some ParsingConcurency \<and>
   runStart \<lparr>flagProcfile = ''Procfile'', flagEnv = [], flagPort = 5000,
             flagConcurrency = ''web=,api=2'', flagRestart = False, osHaveSigTerm = True\<rparr>
     ([\<lparr>Name = ''web'', Command = ''w''\<rparr>], None) (Map.empty, None) 0 [] = Exit ParsingConcurency \<and>
   TrimSpace ''  '' = [] \<and> parseConcurrency ''  '' = (Map.empty, None)"
proof -
  have ne: "TrimSpace ''web=,api=2'' \<noteq> []"
    by (rule TrimSpace_not_Nil [of "CHR ''w''"]) (simp_all add: plainChar_def asciiSpace_def)
  have m: "badFields ''web=''"
    by (simp add: badFields_def partFields_def TrimSpace_def TrimLeft.simps TrimRight.simps)
  have mem: "''web='' \<in> set (Split ''web=,api=2'' CHR '','')" by simp
  have sp: "TrimSpace ''  '' = []"
    by (simp add: TrimSpace_def TrimLeft.simps TrimRight.simps spaceWidth_def asciiSpace_def)
  have "partFields ''web='' = Some (''web'', [])"
    by (simp add: partFields_def TrimSpace_def TrimLeft.simps TrimRight.simps
        spaceWidth_def spaceWidthLast_def asciiSpace_def multiByteSpaces_def)
  with ne have e: "snd (parseConcurrency ''web=,api=2'') = Some ParsingConcurency"
    by (simp add: parseConcurrency_def parseParts_Cons)
  let ?fl = "\<lparr>flagProcfile = ''Procfile'', flagEnv = [], flagPort = 5000,
             flagConcurrency = ''x'', flagRestart = False, osHaveSigTerm = True\<rparr>"
  from parseConcurrency_rejects_bad_fields
    [of "''web=,api=2''" "''web=''" ?fl "[\<lparr>Name = ''web'', Command = ''w''\<rparr>]" Map.empty 0 "[]"]
    ne m mem e
  have "runStart (?fl\<lparr>flagConcurrency := ''web=,api=2''\<rparr>)
     ([\<lparr>Name = ''web'', Command = ''w''\<rparr>], None) (Map.empty, None) 0 [] = Exit ParsingConcurency"
    by auto
  moreover from parseConcurrency_rejects_bad_fields [of "''  ''"] sp
  have "parseConcurrency ''  '' = (Map.empty, None)" by blast
  ultimately show ?thesis using ne m mem e sp by simp
qed

text \<open>
  C8 at the spec \<open>web=2=x\<close>: its one part has the name \<open>web\<close> and the value \<open>2=x\<close>, which
  is no integer, so the part is not well formed. \<open>parseConcurrency\<close> splits the part at
  every \<open>=\<close> and reads the first two fields only: it returns the mapping of \<open>web\<close> to 2
  and no error, and \<open>runStart\<close> goes on to its loops with two calls of \<open>startProcess\<close>
  to make.
\<close>

theorem parseConcurrency_accepts_extra_field:
  "Split ''web=2=x'' CHR '','' = [''web=2=x''] \<and>
   statedName ''web=2=x'' = ''web'' \<and> statedValue ''web=2=x'' = ''2=x'' \<and>
   TrimSpace ''2=x'' = ''2=x'' \<and> \<not> isInteger ''2=x'' \<and>
   \<not> wellFormedPart ''web=2=x'' \<and>
   parseConcurrency ''web=2=x'' = (Map.empty(''web'' \<mapsto> 2), None) \<and>
   runStart \<lparr>flagProcfile = ''Procfile'', flagEnv = [], flagPort = 5000,
             flagConcurrency = ''web=2=x'', flagRestart = False, osHaveSigTerm = True\<rparr>
     ([\<lparr>Name = ''web'', Command = ''w''\<rparr>], None) (Map.empty, None) 0 [] =
   Started
     \<lparr>w_flags = \<lparr>flagProcfile = ''Procfile'', flagEnv = [], flagPort = 5000,
                 flagConcurrency = ''web=2=x'', flagRestart = False, osHaveSigTerm = True\<rparr>,
      w_env = Map.empty, w_f = \<lparr>shutdown = False, teardown = Open, teardownNow = Open, wg = 0\<rparr>,
      w_replicas = [], w_out = [],
      w_main = Fanout [Call 0 0 \<lparr>Name = ''web'', Command = ''w''\<rparr>,
                       Call 0 1 \<lparr>Name = ''web'', Command = ''w''\<rparr>],
      w_first = True, w_once = False, w_now = 0, w_panicked = False\<rparr>"
proof -
  have t: "TrimSpace ''2=x'' = ''2=x''"
    by (rule TrimSpace_plain) (simp_all add: plainChar_def asciiSpace_def)
  have i: "\<not> isInteger ''2=x''" by (simp add: isInteger_def isDigit_def)
  have v: "statedValue ''web=2=x'' = ''2=x''" by (simp add: statedValue_def)
  from t i v have w: "\<not> wellFormedPart ''web=2=x''" by (simp add: wellFormedPart_def)
  have p: "parseConcurrency ''web=2=x'' = (Map.empty(''web'' \<mapsto> 2), None)"
    by (simp add: parseConcurrency_def parseParts_Cons partFields_def TrimSpace_def
        TrimLeft.simps TrimRight.simps spaceWidth_def spaceWidthLast_def asciiSpace_def
        multiByteSpaces_def ParseInt_def ParseUint_def isDigit_def digitVal_def wrap64_def Let_def)
  have r: "runStart \<lparr>flagProcfile = ''Procfile'', flagEnv = [], flagPort = 5000,
             flagConcurrency = ''web=2=x'', flagRestart = False, osHaveSigTerm = True\<rparr>
     ([\<lparr>Name = ''web'', Command = ''w''\<rparr>], None) (Map.empty, None) 0 [] =
   Started
     \<lparr>w_flags = \<lparr>flagProcfile = ''Procfile'', flagEnv = [], flagPort = 5000,
                 flagConcurrency = ''web=2=x'', flagRestart = False, osHaveSigTerm = True\<rparr>,
      w_env = Map.empty, w_f = \<lparr>shutdown = False, teardown = Open, teardownNow = Open, wg = 0\<rparr>,
      w_replicas = [], w_out = [],
      w_main = Fanout [Call 0 0 \<lparr>Name = ''web'', Command = ''w''\<rparr>,
                       Call 0 1 \<lparr>Name = ''web'', Command = ''w''\<rparr>],
      w_first = True, w_once = False, w_now = 0, w_panicked = False\<rparr>"
    by (simp add: runStart_def handleError_def p newForego_def numProcs_def innerLoop.simps)
  have n: "statedName ''web=2=x'' = ''web''" by (simp add: statedName_def)
  have s: "Split ''web=2=x'' CHR '','' = [''web=2=x'']" by simp
  from s n v t i w p r show ?thesis by (intro conjI)
qed

text \<open>
  C9, as the code has it: every value of a mapping that \<open>parseConcurrency\<close> returns
  without an error is an integer from -32768 to 32767. A negative count is not
  rejected: \<open>web=-3\<close> parses to the value -3.
\<close>

theorem parseConcurrency_values_in_int16:
  "parseConcurrency v = (m, None) \<Longrightarrow> m k = Some x \<Longrightarrow> - 32768 \<le> x \<and> x \<le> 32767"
proof -
  assume a: "parseConcurrency v = (m, None)" and k: "m k = Some x"
  show ?thesis
  proof (cases "TrimSpace v = []")
    case True
    with a k show ?thesis by (auto simp: parseConcurrency_def)
  next
    case False
    with a have "parseParts Map.empty (Split v CHR '','') = (m, None)"
      by (simp add: parseConcurrency_def)
    from this k show ?thesis by (rule parseParts_range) simp
  qed
qed

theorem parseConcurrency_values_in_int16_witness:
  "parseConcurrency ''web=-3'' = (Map.empty(''web'' \<mapsto> - 3), None) \<and>
   (Map.empty(''web'' \<mapsto> - 3 :: int)) ''web'' = Some (- 3) \<and>
   - 32768 \<le> (- 3 :: int) \<and> (- 3 :: int) \<le> 32767"
proof -
  have p: "parseConcurrency (''web'' @ CHR ''='' # ''-3'') = (Map.empty(''web'' \<mapsto> - 3), None)"
    by (subst parseConcurrency_single)
      (simp_all add: intValue_def isInteger_def decimal_def digitVal_def isDigit_def
        TrimSpace_plain plainChar_def asciiSpace_def)
  then have p': "parseConcurrency ''web=-3'' = (Map.empty(''web'' \<mapsto> - 3), None)" by simp
  from parseConcurrency_values_in_int16 [OF p', of "''web''" "- 3"] p' show ?thesis by simp
qed

theorem negative_count_counterexample:
  "snd (parseConcurrency ''web=-3'') = None \<and> fst (parseConcurrency ''web=-3'') ''web'' = Some (- 3)"
proof -
  have "parseConcurrency (''web'' @ CHR ''='' # ''-3'') = (Map.empty(''web'' \<mapsto> - 3), None)"
    by (subst parseConcurrency_single)
      (simp_all add: intValue_def isInteger_def decimal_def digitVal_def isDigit_def
        TrimSpace_plain plainChar_def asciiSpace_def)
  then show ?thesis by simp
qed

text \<open>
  C10: \<open>parseConcurrency\<close> reads a count with \<open>strconv.ParseInt(v, 10, 16)\<close>. An integer
  value (an optional sign and decimal digits) outside -32768 .. 32767 is a range
  error, in a spec of one part \<open>name=value\<close> and as a part of any spec, and \<open>runStart\<close>
  exits on it; an integer value inside the range parses to itself.
\<close>

theorem parseConcurrency_int16_bound:
  assumes "isInteger v" "TrimSpace n \<noteq> []" "CHR ''='' \<notin> set n" "CHR '','' \<notin> set n"
  shows "(intValue v < - 32768 \<or> 32767 < intValue v \<longrightarrow>
            ParseInt v 16 = (if intValue v < 0 then - 32768 else 32767, Some ErrRange) \<and>
            parseConcurrency (n @ ''='' @ v) = (Map.empty, Some ErrRange) \<and>
            runStart (fl\<lparr>flagConcurrency := n @ ''='' @ v\<rparr>) (entries, None) (env, None) t args
              = Exit ErrRange) \<and>
         (TrimSpace s \<noteq> [] \<and> part \<in> set (Split s CHR '','') \<and> partFields part = Some (n', v) \<and>
            (intValue v < - 32768 \<or> 32767 < intValue v) \<longrightarrow>
            snd (parseConcurrency s) \<noteq> None) \<and>
         (- 32768 \<le> intValue v \<and> intValue v \<le> 32767 \<longrightarrow>
            ParseInt v 16 = (intValue v, None) \<and>
            parseConcurrency (n @ ''='' @ v) = (Map.empty(TrimSpace n \<mapsto> intValue v), None))"
proof (intro conjI impI)
  assume out: "intValue v < - 32768 \<or> 32767 < intValue v"
  with ParseInt_integer [OF assms(1)]
  show "ParseInt v 16 = (if intValue v < 0 then - 32768 else 32767, Some ErrRange)" by auto
  from out parseConcurrency_single [OF assms]
  show p: "parseConcurrency (n @ ''='' @ v) = (Map.empty, Some ErrRange)" by auto
  then show "runStart (fl\<lparr>flagConcurrency := n @ ''='' @ v\<rparr>) (entries, None) (env, None) t args
      = Exit ErrRange"
    by (simp add: runStart_parse_error)
next
  assume a: "TrimSpace s \<noteq> [] \<and> part \<in> set (Split s CHR '','') \<and> partFields part = Some (n', v) \<and>
            (intValue v < - 32768 \<or> 32767 < intValue v)"
  with ParseInt_integer [OF assms(1)] have "\<not> accepted part"
    by (auto simp: accepted_def)
  with a have "\<not> list_all accepted (Split s CHR '','')" by (auto simp: list_all_iff)
  with a show "snd (parseConcurrency s) \<noteq> None" by (simp add: parseConcurrency_accepted)
next
  assume inr: "- 32768 \<le> intValue v \<and> intValue v \<le> 32767"
  with ParseInt_integer [OF assms(1)] show "ParseInt v 16 = (intValue v, None)" by simp
  from inr parseConcurrency_single [OF assms]
  show "parseConcurrency (n @ ''='' @ v) = (Map.empty(TrimSpace n \<mapsto> intValue v), None)" by simp
qed

theorem parseConcurrency_int16_bound_witness:
  "parseConcurrency ''web=32768'' = (Map.empty, Some ErrRange) \<and>
   runStart \<lparr>flagProcfile = ''Procfile'', flagEnv = [], flagPort = 5000,
             flagConcurrency = ''web=32768'', flagRestart = False, osHaveSigTerm = True\<rparr>
     ([\<lparr>Name = ''web'', Command = ''w''\<rparr>], None) (Map.empty, None) 0 [] = Exit ErrRange \<and>
   snd (parseConcurrency ''a=1,web=32768'') \<noteq> None \<and>
   parseConcurrency ''web=32767'' = (Map.empty(''web'' \<mapsto> 32767), None) \<and>
   parseConcurrency ''web=-32768'' = (Map.empty(''web'' \<mapsto> - 32768), None)"
proof -
  let ?fl = "\<lparr>flagProcfile = ''Procfile'', flagEnv = [], flagPort = 5000,
             flagConcurrency = ''x'', flagRestart = False, osHaveSigTerm = True\<rparr>"
  have w: "TrimSpace ''web'' \<noteq> []" "CHR ''='' \<notin> set ''web''" "CHR '','' \<notin> set ''web''"
    "TrimSpace ''web'' = ''web''"
    by (simp_all add: TrimSpace_plain plainChar_def asciiSpace_def)
  have i1: "isInteger ''32768''" "intValue ''32768'' = 32768"
    and i2: "isInteger ''32767''" "intValue ''32767'' = 32767"
    and i3: "isInteger ''-32768''" "intValue ''-32768'' = - 32768"
    by (simp_all add: intValue_def isInteger_def decimal_def digitVal_def isDigit_def)
  have ne: "TrimSpace ''a=1,web=32768'' \<noteq> []"
    by (rule TrimSpace_not_Nil [of "CHR ''a''"]) (simp_all add: plainChar_def asciiSpace_def)
  have pf: "partFields ''web=32768'' = Some (''web'', ''32768'')"
    by (simp add: partFields_def TrimSpace_plain plainChar_def asciiSpace_def)
  have mem: "''web=32768'' \<in> set (Split ''a=1,web=32768'' CHR '','')" by simp
  from parseConcurrency_int16_bound [OF i1(1) w(1-3),
      of ?fl "[\<lparr>Name = ''web'', Command = ''w''\<rparr>]" Map.empty 0 "[]"
        "''a=1,web=32768''" "''web=32768''" "''web''"]
    i1(2) ne pf mem
  have a: "parseConcurrency ''web=32768'' = (Map.empty, Some ErrRange)"
    and b: "runStart (?fl\<lparr>flagConcurrency := ''web=32768''\<rparr>)
     ([\<lparr>Name = ''web'', Command = ''w''\<rparr>], None) (Map.empty, None) 0 [] = Exit ErrRange"
    and c: "snd (parseConcurrency ''a=1,web=32768'') \<noteq> None"
    by simp_all
  from parseConcurrency_int16_bound [OF i2(1) w(1-3)] i2(2) w(4)
  have d: "parseConcurrency ''web=32767'' = (Map.empty(''web'' \<mapsto> 32767), None)" by simp
  from parseConcurrency_int16_bound [OF i3(1) w(1-3)] i3(2) w(4)
  have e: "parseConcurrency ''web=-32768'' = (Map.empty(''web'' \<mapsto> - 32768), None)" by simp
  from a b c d e show ?thesis by simp
qed

section \<open>The supervisor: how a step changes the world\<close>

definition newReplica :: "Flags \<Rightarrow> Env \<Rightarrow> int \<Rightarrow> int \<Rightarrow> ProcfileEntry \<Rightarrow> nat option \<Rightarrow> replica" where
  \<comment> \<open>the replica that a call of \<open>startProcess\<close> adds\<close>
  "newReplica fl env idx procNum proc parent =
     (let port = wrap64 (flagPort fl + wrap64 (idx * 100));
          procName = Name proc @ ''.'' @ Itoa (wrap64 (procNum + 1))
      in \<lparr>r_idx = idx, r_procNum = procNum, r_proc = proc, r_port = port,
          r_procName = procName,
          r_ps = \<lparr>psCommand = Command proc, psEnv = env(''PORT'' \<mapsto> Itoa port),
                  psStdout = Some (CreateOutlet procName idx False),
                  psStderr = Some (CreateOutlet procName idx True),
                  psChild = Alive, sigTerms = 0, sigKills = 0\<rparr>,
          r_finished = Open, r_waiter = Waiting, r_coord = AtSelect, r_parent = parent\<rparr>)"

lemma startProcess_eq:
  "startProcess idx procNum proc parent w =
     w\<lparr>w_out := w_out w @
          [SystemOutput (''starting '' @ r_procName (newReplica (w_flags w) (w_env w) idx procNum proc parent)
             @ '' on port '' @ Itoa (r_port (newReplica (w_flags w) (w_env w) idx procNum proc parent)))],
       w_replicas := w_replicas w @ [newReplica (w_flags w) (w_env w) idx procNum proc parent],
       w_f := (w_f w)\<lparr>wg := wg (w_f w) + 1\<rparr>\<rparr>"
  by (simp add: startProcess_def newReplica_def Let_def NewProcess_def Start_def)

lemma startProcess_fields [simp]:
  "w_replicas (startProcess idx procNum proc parent w) =
     w_replicas w @ [newReplica (w_flags w) (w_env w) idx procNum proc parent]"
  "w_f (startProcess idx procNum proc parent w) = (w_f w)\<lparr>wg := wg (w_f w) + 1\<rparr>"
  "w_flags (startProcess idx procNum proc parent w) = w_flags w"
  "w_env (startProcess idx procNum proc parent w) = w_env w"
  "w_main (startProcess idx procNum proc parent w) = w_main w"
  "w_first (startProcess idx procNum proc parent w) = w_first w"
  "w_once (startProcess idx procNum proc parent w) = w_once w"
  "w_now (startProcess idx procNum proc parent w) = w_now w"
  "w_panicked (startProcess idx procNum proc parent w) = w_panicked w"
  by (simp_all add: startProcess_eq)

lemma updReplica_fields [simp]:
  "w_replicas (updReplica p g w) = (w_replicas w)[p := g (w_replicas w ! p)]"
  "w_f (updReplica p g w) = w_f w"
  "w_flags (updReplica p g w) = w_flags w"
  "w_env (updReplica p g w) = w_env w"
  "w_main (updReplica p g w) = w_main w"
  "w_first (updReplica p g w) = w_first w"
  "w_once (updReplica p g w) = w_once w"
  "w_now (updReplica p g w) = w_now w"
  "w_out (updReplica p g w) = w_out w"
  "w_panicked (updReplica p g w) = w_panicked w"
  by (simp_all add: updReplica_def)

lemma say_fields [simp]:
  "w_replicas (say line w) = w_replicas w"
  "w_f (say line w) = w_f w"
  "w_flags (say line w) = w_flags w"
  "w_env (say line w) = w_env w"
  "w_main (say line w) = w_main w"
  "w_first (say line w) = w_first w"
  "w_once (say line w) = w_once w"
  "w_now (say line w) = w_now w"
  "w_out (say line w) = w_out w @ [SystemOutput line]"
  "w_panicked (say line w) = w_panicked w"
  by (simp_all add: say_def)

lemma panic_fields [simp]:
  "w_replicas (panic w) = w_replicas w"
  "w_f (panic w) = w_f w"
  "w_flags (panic w) = w_flags w"
  "w_env (panic w) = w_env w"
  "w_main (panic w) = w_main w"
  "w_first (panic w) = w_first w"
  "w_once (panic w) = w_once w"
  "w_now (panic w) = w_now w"
  "w_out (panic w) = w_out w"
  "w_panicked (panic w) = True"
  by (simp_all add: panic_def)

lemma signalShutdown_fields [simp]:
  "w_replicas (signalShutdown w) = w_replicas w"
  "w_flags (signalShutdown w) = w_flags w"
  "w_env (signalShutdown w) = w_env w"
  "w_main (signalShutdown w) = w_main w"
  "w_first (signalShutdown w) = w_first w"
  "w_once (signalShutdown w) = w_once w"
  "w_now (signalShutdown w) = w_now w"
  "w_out (signalShutdown w) = w_out w"
  "wg (w_f (signalShutdown w)) = wg (w_f w)"
  "teardownNow (w_f (signalShutdown w)) = teardownNow (w_f w)"
  by (simp_all add: signalShutdown_def SignalShutdown_def close_chan_def
      split: option.splits chan.splits)

lemma forceKill_fields [simp]:
  "w_replicas (forceKill p w) =
     (w_replicas w)[p := (w_replicas w ! p)\<lparr>r_ps := SendSigKill (r_ps (w_replicas w ! p)),
                                           r_coord := AtDefer\<rparr>]"
  "w_f (forceKill p w) = w_f w"
  "w_flags (forceKill p w) = w_flags w"
  "w_env (forceKill p w) = w_env w"
  "w_main (forceKill p w) = w_main w"
  "w_first (forceKill p w) = w_first w"
  "w_once (forceKill p w) = w_once w"
  "w_now (forceKill p w) = w_now w"
  "w_out (forceKill p w) = w_out w @ [SystemOutput (''Killing '' @ r_procName (w_replicas w ! p))]"
  "w_panicked (forceKill p w) = w_panicked w"
  by (simp_all add: forceKill_def)

text \<open>
  When \<open>shutdown\<close> is set exactly if \<open>teardown\<close> is closed, \<open>SignalShutdown\<close> cannot panic
  and leaves \<open>teardown\<close> closed.
\<close>

definition onceOk :: "Forego \<Rightarrow> bool" where
  "onceOk f = (shutdown f \<longleftrightarrow> teardown f = Closed)"

lemma SignalShutdown_onceOk:
  assumes "onceOk f"
  shows "SignalShutdown f = Some (f\<lparr>shutdown := True, teardown := Closed\<rparr>)"
  using assms
  by (cases "teardown f") (auto simp: onceOk_def SignalShutdown_def close_chan_def)

lemma signalShutdown_onceOk:
  assumes "onceOk (w_f w)"
  shows "signalShutdown w = w\<lparr>w_f := (w_f w)\<lparr>shutdown := True, teardown := Closed\<rparr>\<rparr>"
  using SignalShutdown_onceOk [OF assms] by (simp add: signalShutdown_def)

lemma monitorInterrupt_eq:
  assumes "onceOk (w_f w)" "w_once w \<longleftrightarrow> teardownNow (w_f w) = Closed" "\<not> w_panicked w"
  shows "monitorInterrupt w =
     w\<lparr>w_out := w_out w @ [Println ''      | ctrl-c detected''],
       w_once := (w_once w \<or> \<not> w_first w),
       w_f := (w_f w)\<lparr>shutdown := True, teardown := Closed,
                      teardownNow := (if w_first w then teardownNow (w_f w) else Closed)\<rparr>,
       w_first := False\<rparr>"
proof (cases "teardownNow (w_f w)")
  case Open
  with assms show ?thesis
    by (simp add: monitorInterrupt_def Let_def close_chan_def signalShutdown_onceOk onceOk_def)
next
  case Closed
  with assms show ?thesis
    by (simp add: monitorInterrupt_def Let_def close_chan_def signalShutdown_onceOk onceOk_def)
qed

lemma step_cases [consumes 1, case_names Tick Interrupt MainStart MainTeardown MainWait
    ChildExit WaitReturn CloseFinished CloseFinishedPanic Restart NoRestart TeardownKill
    TeardownTerm Timer TeardownNow Finished2 Complete CompletePanic]:
  assumes "step e w = Some w'"
  obtains
    (Tick) d where "e = Tick d" "w' = w\<lparr>w_now := w_now w + d\<rparr>"
  | (Interrupt) "e = Interrupt" "w' = monitorInterrupt w"
  | (MainStart) idx i proc calls where "e = MainStart"
      "w_main w = Fanout (Call idx i proc # calls)"
      "w' = startProcess idx i proc None (w\<lparr>w_main := Fanout calls\<rparr>)"
  | (MainTeardown) "e = MainTeardown" "w_main w = Fanout []" "teardown (w_f w) = Closed"
      "w' = say ''shutting down'' (w\<lparr>w_main := AwaitWg\<rparr>)"
  | (MainWait) "e = MainWait" "w_main w = AwaitWg" "wg (w_f w) = 0" "w' = w\<lparr>w_main := Returned\<rparr>"
  | (ChildExit) p where "e = ChildExit p" "p < length (w_replicas w)"
      "psChild (r_ps (w_replicas w ! p)) = Alive"
      "w' = updReplica p (\<lambda>r. r\<lparr>r_ps := (r_ps r)\<lparr>psChild := Exited\<rparr>\<rparr>) w"
  | (WaitReturn) p where "e = WaitReturn p" "p < length (w_replicas w)"
      "r_waiter (w_replicas w ! p) = Waiting" "psChild (r_ps (w_replicas w ! p)) = Exited"
      "w' = updReplica p (\<lambda>r. r\<lparr>r_ps := (r_ps r)\<lparr>psChild := Reaped\<rparr>, r_waiter := Closing\<rparr>) w"
  | (CloseFinished) p where "e = CloseFinished p" "p < length (w_replicas w)"
      "r_waiter (w_replicas w ! p) = Closing" "r_finished (w_replicas w ! p) = Open"
      "w' = updReplica p (\<lambda>r. r\<lparr>r_finished := Closed, r_waiter := WaiterDone\<rparr>) w"
  | (CloseFinishedPanic) p where "e = CloseFinished p" "p < length (w_replicas w)"
      "r_waiter (w_replicas w ! p) = Closing" "r_finished (w_replicas w ! p) = Closed"
      "w' = panic w"
  | (Restart) p where "e = SelFinished p" "p < length (w_replicas w)"
      "flagRestart (w_flags w)"
      "r_coord (w_replicas w ! p) = AtSelect" "r_finished (w_replicas w ! p) = Closed"
      "w' = updReplica p (\<lambda>r. r\<lparr>r_coord := AtDefer\<rparr>)
              (startProcess (r_idx (w_replicas w ! p)) (r_procNum (w_replicas w ! p))
                 (r_proc (w_replicas w ! p)) (Some p) w)"
  | (NoRestart) p where "e = SelFinished p" "p < length (w_replicas w)"
      "\<not> flagRestart (w_flags w)"
      "r_coord (w_replicas w ! p) = AtSelect" "r_finished (w_replicas w ! p) = Closed"
      "w' = updReplica p (\<lambda>r. r\<lparr>r_coord := AtDefer\<rparr>) (signalShutdown w)"
  | (TeardownKill) p where "e = SelTeardown p" "p < length (w_replicas w)"
      "\<not> osHaveSigTerm (w_flags w)"
      "r_coord (w_replicas w ! p) = AtSelect" "teardown (w_f w) = Closed"
      "w' = updReplica p (\<lambda>r. r\<lparr>r_ps := Kill (r_ps r), r_coord := AtDefer\<rparr>)
              (say (''Killing '' @ r_procName (w_replicas w ! p)) w)"
  | (TeardownTerm) p where "e = SelTeardown p" "p < length (w_replicas w)"
      "osHaveSigTerm (w_flags w)"
      "r_coord (w_replicas w ! p) = AtSelect" "teardown (w_f w) = Closed"
      "w' = updReplica p (\<lambda>r. r\<lparr>r_ps := SendSigTerm (r_ps r),
                                  r_coord := AtGrace (w_now w + shutdownGraceTime)\<rparr>)
              (say (''sending SIGTERM to '' @ r_procName (w_replicas w ! p)) w)"
  | (Timer) p deadline where "e = SelTimer p" "p < length (w_replicas w)"
      "r_coord (w_replicas w ! p) = AtGrace deadline" "deadline \<le> w_now w"
      "w' = forceKill p w"
  | (TeardownNow) p deadline where "e = SelTeardownNow p" "p < length (w_replicas w)"
      "r_coord (w_replicas w ! p) = AtGrace deadline" "teardownNow (w_f w) = Closed"
      "w' = forceKill p w"
  | (Finished2) p deadline where "e = SelFinished2 p" "p < length (w_replicas w)"
      "r_coord (w_replicas w ! p) = AtGrace deadline" "r_finished (w_replicas w ! p) = Closed"
      "w' = updReplica p (\<lambda>r. r\<lparr>r_coord := AtDefer\<rparr>) w"
  | (Complete) p where "e = Complete p" "p < length (w_replicas w)"
      "r_coord (w_replicas w ! p) = AtDefer" "r_finished (w_replicas w ! p) = Closed"
      "0 < wg (w_f w)"
      "w' = updReplica p (\<lambda>r. r\<lparr>r_coord := CoordDone\<rparr>)
              (w\<lparr>w_f := (w_f w)\<lparr>wg := wg (w_f w) - 1\<rparr>\<rparr>)"
  | (CompletePanic) p where "e = Complete p" "p < length (w_replicas w)"
      "r_coord (w_replicas w ! p) = AtDefer" "r_finished (w_replicas w ! p) = Closed"
      "wg (w_f w) \<le> 0" "w' = panic w"
proof (cases e)
  case (Tick d)
  with assms that(1) show ?thesis by (auto simp: step_def split: if_splits)
next
  case Interrupt
  with assms that(2) show ?thesis by (auto simp: step_def split: if_splits)
next
  case MainStart
  with assms that(3) show ?thesis
    by (auto simp: step_def mainStart_def split: if_splits main_pc.splits list.splits call.splits)
next
  case MainTeardown
  with assms that(4) show ?thesis by (auto simp: step_def mainTeardown_def split: if_splits)
next
  case MainWait
  with assms that(5) show ?thesis by (auto simp: step_def mainWait_def split: if_splits)
next
  case (ChildExit p)
  with assms that(6) [of p] show ?thesis
    by (auto simp: step_def onReplica_def childExit_def updReplica_def split: if_splits)
next
  case (WaitReturn p)
  with assms that(7) [of p] show ?thesis
    by (auto simp: step_def onReplica_def waitReturn_def updReplica_def split: if_splits)
next
  case (CloseFinished p)
  with assms that(8) [of p] that(9) [of p] show ?thesis
    by (cases "r_finished (w_replicas w ! p)")
      (auto simp: step_def closeFinished_def close_chan_def Let_def split: if_splits)
next
  case (SelFinished p)
  with assms that(10) [of p] that(11) [of p] show ?thesis
    by (auto simp: step_def selFinished_def Let_def split: if_splits)
next
  case (SelTeardown p)
  with assms that(12) [of p] that(13) [of p] show ?thesis
    by (auto simp: step_def selTeardown_def Let_def split: if_splits)
next
  case (SelTimer p)
  with assms that(14) [of p] show ?thesis
    by (auto simp: step_def selTimer_def split: if_splits coord.splits)
next
  case (SelTeardownNow p)
  with assms that(15) [of p] show ?thesis
    by (auto simp: step_def selTeardownNow_def split: if_splits coord.splits)
next
  case (SelFinished2 p)
  with assms that(16) [of p] show ?thesis
    by (auto simp: step_def selFinished2_def split: if_splits coord.splits)
next
  case (Complete p)
  with assms that(17) [of p] that(18) [of p] show ?thesis
    by (auto simp: step_def complete_def Let_def split: if_splits)
qed

lemma step_running:
  "step e w = Some w' \<Longrightarrow> \<not> w_panicked w \<and> w_main w \<noteq> Returned"
  by (auto simp: step_def split: if_splits)

lemma exec_invariant:
  assumes "exec es w = Some w'" "P w" "\<And>e w w'. P w \<Longrightarrow> step e w = Some w' \<Longrightarrow> P w'"
  shows "P w'"
  using assms(1,2)
proof (induction es arbitrary: w)
  case Nil
  then show ?case by simp
next
  case (Cons e es)
  then obtain w1 where s: "step e w = Some w1" and r: "exec es w1 = Some w'"
    by (auto split: option.splits)
  from Cons.prems(2) s have "P w1" by (rule assms(3))
  with r show ?case by (rule Cons.IH)
qed

lemma exec_append:
  "exec (es @ es') w = (case exec es w of None \<Rightarrow> None | Some w1 \<Rightarrow> exec es' w1)"
  by (induction es arbitrary: w) (auto split: option.splits)

lemma reachable_refl: "reachable w w"
  unfolding reachable_def by (rule exI [of _ "[]"]) simp

lemma reachable_step: "reachable w0 w \<Longrightarrow> step e w = Some w' \<Longrightarrow> reachable w0 w'"
  unfolding reachable_def
proof -
  assume "\<exists>es. exec es w0 = Some w" and s: "step e w = Some w'"
  then obtain es where "exec es w0 = Some w" by blast
  with s have "exec (es @ [e]) w0 = Some w'" by (simp add: exec_append)
  then show "\<exists>es. exec es w0 = Some w'" by blast
qed

lemma reachable_trans: "reachable w0 w \<Longrightarrow> reachable w w' \<Longrightarrow> reachable w0 w'"
  unfolding reachable_def
proof -
  assume "\<exists>es. exec es w0 = Some w" "\<exists>es. exec es w = Some w'"
  then obtain es es' where "exec es w0 = Some w" "exec es' w = Some w'" by blast
  then have "exec (es @ es') w0 = Some w'" by (simp add: exec_append)
  then show "\<exists>es. exec es w0 = Some w'" by blast
qed

lemma reachable_invariant:
  assumes "reachable w w'" "P w" "\<And>e w w'. P w \<Longrightarrow> step e w = Some w' \<Longrightarrow> P w'"
  shows "P w'"
proof -
  from assms(1) obtain es where "exec es w = Some w'" by (auto simp: reachable_def)
  from this assms(2,3) show ?thesis by (rule exec_invariant)
qed

section \<open>The supervisor: invariants\<close>

definition active :: "replica \<Rightarrow> bool" where
  \<comment> \<open>the coordinator has not run its \<open>f.wg.Done()\<close> yet\<close>
  "active r = (r_coord r \<noteq> CoordDone)"

definition isGrace :: "coord \<Rightarrow> bool" where
  "isGrace c = (case c of AtGrace deadline \<Rightarrow> True | _ \<Rightarrow> False)"

definition replicaOk :: "replica \<Rightarrow> bool" where
  "replicaOk r =
     ((r_finished r = Closed \<longleftrightarrow> r_waiter r = WaiterDone) \<and>
      (r_waiter r = Waiting \<longrightarrow> psChild (r_ps r) = Alive \<or> psChild (r_ps r) = Exited) \<and>
      (r_waiter r \<noteq> Waiting \<longrightarrow> psChild (r_ps r) = Reaped) \<and>
      (r_coord r = CoordDone \<longrightarrow> r_finished r = Closed) \<and>
      (r_coord r = AtSelect \<longrightarrow> sigTerms (r_ps r) = 0 \<and> sigKills (r_ps r) = 0) \<and>
      (isGrace (r_coord r) \<longrightarrow> sigTerms (r_ps r) = 1 \<and> sigKills (r_ps r) = 0) \<and>
      sigTerms (r_ps r) \<le> 1 \<and> sigKills (r_ps r) \<le> 1)"

definition inv :: "world \<Rightarrow> bool" where
  "inv w =
     (\<not> w_panicked w \<and> onceOk (w_f w) \<and>
      (w_once w \<longleftrightarrow> teardownNow (w_f w) = Closed) \<and>
      (teardownNow (w_f w) = Closed \<longrightarrow> teardown (w_f w) = Closed) \<and>
      wg (w_f w) = int (length (filter active (w_replicas w))) \<and>
      list_all replicaOk (w_replicas w) \<and>
      (w_main w = AwaitWg \<or> w_main w = Returned \<longrightarrow> teardown (w_f w) = Closed) \<and>
      (w_main w = Returned \<longrightarrow> wg (w_f w) = 0))"

lemma filter_length_update:
  "p < length xs \<Longrightarrow>
     int (length (filter P (xs[p := y]))) =
       int (length (filter P xs)) + (if P y then 1 else 0) - (if P (xs ! p) then 1 else 0)"
proof (induction xs arbitrary: p)
  case Nil
  then show ?case by simp
next
  case (Cons x xs)
  show ?case
  proof (cases p)
    case 0
    then show ?thesis by simp
  next
    case (Suc n)
    with Cons.prems have "n < length xs" by simp
    from Cons.IH [OF this] Suc show ?thesis by (auto split: if_splits)
  qed
qed

lemma list_all_update: "list_all P xs \<Longrightarrow> P y \<Longrightarrow> list_all P (xs[p := y])"
proof (induction xs arbitrary: p)
  case Nil
  then show ?case by simp
next
  case (Cons x xs)
  then show ?case by (cases p) auto
qed

lemma list_all_nth: "list_all P xs \<Longrightarrow> p < length xs \<Longrightarrow> P (xs ! p)"
  by (simp add: list_all_length)

lemma newReplica_fields [simp]:
  "r_idx (newReplica fl env idx procNum proc parent) = idx"
  "r_procNum (newReplica fl env idx procNum proc parent) = procNum"
  "r_proc (newReplica fl env idx procNum proc parent) = proc"
  "r_parent (newReplica fl env idx procNum proc parent) = parent"
  "r_coord (newReplica fl env idx procNum proc parent) = AtSelect"
  "r_waiter (newReplica fl env idx procNum proc parent) = Waiting"
  "r_finished (newReplica fl env idx procNum proc parent) = Open"
  "psChild (r_ps (newReplica fl env idx procNum proc parent)) = Alive"
  "sigTerms (r_ps (newReplica fl env idx procNum proc parent)) = 0"
  "sigKills (r_ps (newReplica fl env idx procNum proc parent)) = 0"
  by (simp_all add: newReplica_def Let_def)

lemma newReplica_ok [simp]: "replicaOk (newReplica fl env idx procNum proc parent)"
  by (simp add: replicaOk_def newReplica_def Let_def isGrace_def)

lemma newReplica_active [simp]: "active (newReplica fl env idx procNum proc parent)"
  by (simp add: active_def newReplica_def Let_def)

lemma inv_step:
  assumes "inv w" "step e w = Some w'"
  shows "inv w'"
proof -
  from step_running [OF assms(2)] have run: "w_main w \<noteq> Returned" by simp
  from assms(2) show ?thesis
  proof (cases rule: step_cases)
  case (Tick d)
  with assms(1) run show ?thesis by (auto simp: inv_def)
next
  case Interrupt
  from assms(1) have "monitorInterrupt w =
     w\<lparr>w_out := w_out w @ [Println ''      | ctrl-c detected''],
       w_once := (w_once w \<or> \<not> w_first w),
       w_f := (w_f w)\<lparr>shutdown := True, teardown := Closed,
                      teardownNow := (if w_first w then teardownNow (w_f w) else Closed)\<rparr>,
       w_first := False\<rparr>"
    by (intro monitorInterrupt_eq) (simp_all add: inv_def)
  with Interrupt assms(1) run show ?thesis by (auto simp: inv_def onceOk_def)
next
  case (MainStart idx i proc calls)
  with assms(1) run show ?thesis by (auto simp: inv_def onceOk_def)
next
  case MainTeardown
  with assms(1) run show ?thesis by (auto simp: inv_def)
next
  case MainWait
  with assms(1) run show ?thesis by (auto simp: inv_def)
next
  case (ChildExit p)
  from assms(1) ChildExit(2) have ok: "replicaOk (w_replicas w ! p)"
    by (simp add: inv_def list_all_nth)
  with ChildExit have "replicaOk ((w_replicas w ! p)\<lparr>r_ps := (r_ps (w_replicas w ! p))\<lparr>psChild := Exited\<rparr>\<rparr>)"
    by (auto simp: replicaOk_def)
  with ChildExit assms(1) run show ?thesis
    by (auto simp: inv_def list_all_update filter_length_update active_def)
next
  case (WaitReturn p)
  from assms(1) WaitReturn(2) have ok: "replicaOk (w_replicas w ! p)"
    by (simp add: inv_def list_all_nth)
  with WaitReturn have "replicaOk ((w_replicas w ! p)\<lparr>r_ps := (r_ps (w_replicas w ! p))\<lparr>psChild := Reaped\<rparr>,
      r_waiter := Closing\<rparr>)"
    by (auto simp: replicaOk_def)
  with WaitReturn assms(1) run show ?thesis
    by (auto simp: inv_def list_all_update filter_length_update active_def)
next
  case (CloseFinished p)
  from assms(1) CloseFinished(2) have ok: "replicaOk (w_replicas w ! p)"
    by (simp add: inv_def list_all_nth)
  with CloseFinished have "replicaOk ((w_replicas w ! p)\<lparr>r_finished := Closed, r_waiter := WaiterDone\<rparr>)"
    by (auto simp: replicaOk_def)
  with CloseFinished assms(1) run show ?thesis
    by (auto simp: inv_def list_all_update filter_length_update active_def)
next
  case (CloseFinishedPanic p)
  from assms(1) CloseFinishedPanic(2) have ok: "replicaOk (w_replicas w ! p)"
    by (simp add: inv_def list_all_nth)
  with CloseFinishedPanic show ?thesis by (simp add: replicaOk_def)
next
  case (Restart p)
  from assms(1) Restart(2) have ok: "replicaOk (w_replicas w ! p)"
    by (simp add: inv_def list_all_nth)
  with Restart have ok': "replicaOk ((w_replicas w ! p)\<lparr>r_coord := AtDefer\<rparr>)"
    by (auto simp: replicaOk_def isGrace_def)
  from Restart(2) have nth: "(w_replicas w @ [newReplica (w_flags w) (w_env w)
      (r_idx (w_replicas w ! p)) (r_procNum (w_replicas w ! p)) (r_proc (w_replicas w ! p)) (Some p)]) ! p
      = w_replicas w ! p"
    by (simp add: nth_append)
  from Restart assms(1) run ok' show ?thesis
    by (auto simp: inv_def nth list_all_update filter_length_update active_def onceOk_def)
next
  case (NoRestart p)
  from assms(1) NoRestart(2) have ok: "replicaOk (w_replicas w ! p)"
    by (simp add: inv_def list_all_nth)
  with NoRestart have ok': "replicaOk ((w_replicas w ! p)\<lparr>r_coord := AtDefer\<rparr>)"
    by (auto simp: replicaOk_def isGrace_def)
  from assms(1) have "signalShutdown w = w\<lparr>w_f := (w_f w)\<lparr>shutdown := True, teardown := Closed\<rparr>\<rparr>"
    by (simp add: signalShutdown_onceOk inv_def)
  with NoRestart assms(1) run ok' show ?thesis
    by (auto simp: inv_def list_all_update filter_length_update active_def onceOk_def)
next
  case (TeardownKill p)
  from assms(1) TeardownKill(2) have ok: "replicaOk (w_replicas w ! p)"
    by (simp add: inv_def list_all_nth)
  with TeardownKill have ok': "replicaOk ((w_replicas w ! p)\<lparr>r_ps := Kill (r_ps (w_replicas w ! p)),
      r_coord := AtDefer\<rparr>)"
    by (auto simp: replicaOk_def isGrace_def Kill_def)
  from TeardownKill assms(1) run ok' show ?thesis
    by (auto simp: inv_def list_all_update filter_length_update active_def)
next
  case (TeardownTerm p)
  from assms(1) TeardownTerm(2) have ok: "replicaOk (w_replicas w ! p)"
    by (simp add: inv_def list_all_nth)
  with TeardownTerm have ok': "replicaOk ((w_replicas w ! p)\<lparr>r_ps := SendSigTerm (r_ps (w_replicas w ! p)),
      r_coord := AtGrace (w_now w + shutdownGraceTime)\<rparr>)"
    by (auto simp: replicaOk_def isGrace_def SendSigTerm_def)
  from TeardownTerm assms(1) run ok' show ?thesis
    by (auto simp: inv_def list_all_update filter_length_update active_def)
next
  case (Timer p deadline)
  from assms(1) Timer(2) have ok: "replicaOk (w_replicas w ! p)"
    by (simp add: inv_def list_all_nth)
  with Timer have ok': "replicaOk ((w_replicas w ! p)\<lparr>r_ps := SendSigKill (r_ps (w_replicas w ! p)),
      r_coord := AtDefer\<rparr>)"
    by (auto simp: replicaOk_def isGrace_def SendSigKill_def)
  from Timer assms(1) run ok' show ?thesis
    by (auto simp: inv_def list_all_update filter_length_update active_def)
next
  case (TeardownNow p deadline)
  from assms(1) TeardownNow(2) have ok: "replicaOk (w_replicas w ! p)"
    by (simp add: inv_def list_all_nth)
  with TeardownNow have ok': "replicaOk ((w_replicas w ! p)\<lparr>r_ps := SendSigKill (r_ps (w_replicas w ! p)),
      r_coord := AtDefer\<rparr>)"
    by (auto simp: replicaOk_def isGrace_def SendSigKill_def)
  from TeardownNow assms(1) run ok' show ?thesis
    by (auto simp: inv_def list_all_update filter_length_update active_def)
next
  case (Finished2 p deadline)
  from assms(1) Finished2(2) have ok: "replicaOk (w_replicas w ! p)"
    by (simp add: inv_def list_all_nth)
  with Finished2 have ok': "replicaOk ((w_replicas w ! p)\<lparr>r_coord := AtDefer\<rparr>)"
    by (auto simp: replicaOk_def isGrace_def)
  from Finished2 assms(1) run ok' show ?thesis
    by (auto simp: inv_def list_all_update filter_length_update active_def)
next
  case (Complete p)
  from assms(1) Complete(2) have ok: "replicaOk (w_replicas w ! p)"
    by (simp add: inv_def list_all_nth)
  with Complete have ok': "replicaOk ((w_replicas w ! p)\<lparr>r_coord := CoordDone\<rparr>)"
    by (auto simp: replicaOk_def isGrace_def)
  from Complete assms(1) run ok' show ?thesis
    by (auto simp: inv_def list_all_update filter_length_update active_def onceOk_def)
next
  case (CompletePanic p)
  from CompletePanic(2) have "w_replicas w ! p \<in> set (filter active (w_replicas w))"
    using CompletePanic(3) by (simp add: active_def)
  then have "0 < length (filter active (w_replicas w))"
    by (metis length_pos_if_in_set)
  with assms(1) CompletePanic(5) show ?thesis by (simp add: inv_def)
qed
qed

lemma monitorInterrupt_fields [simp]:
  "w_replicas (monitorInterrupt w) = w_replicas w"
  "w_flags (monitorInterrupt w) = w_flags w"
  "w_env (monitorInterrupt w) = w_env w"
  "w_main (monitorInterrupt w) = w_main w"
  "w_now (monitorInterrupt w) = w_now w"
  by (simp_all add: monitorInterrupt_def Let_def close_chan_def split: chan.splits)

subsection \<open>The calls of startProcess\<close>

definition mainCalls :: "world \<Rightarrow> call list" where
  \<comment> \<open>the calls of \<open>startProcess\<close> that \<open>runStart\<close> has made\<close>
  "mainCalls w =
     map (\<lambda>r. Call (r_idx r) (r_procNum r) (r_proc r))
       (filter (\<lambda>r. r_parent r = None) (w_replicas w))"

definition pending :: "world \<Rightarrow> call list" where
  \<comment> \<open>the calls of \<open>startProcess\<close> that \<open>runStart\<close> has still to make\<close>
  "pending w = (case w_main w of Fanout calls \<Rightarrow> calls | _ \<Rightarrow> [])"

definition keyOk :: "Flags \<Rightarrow> Env \<Rightarrow> call list \<Rightarrow> replica \<Rightarrow> bool" where
  "keyOk fl env calls r =
     (Call (r_idx r) (r_procNum r) (r_proc r) \<in> set calls \<and>
      r_port r = wrap64 (flagPort fl + wrap64 (r_idx r * 100)) \<and>
      r_procName r = Name (r_proc r) @ ''.'' @ Itoa (wrap64 (r_procNum r + 1)) \<and>
      psCommand (r_ps r) = Command (r_proc r) \<and>
      psEnv (r_ps r) = env(''PORT'' \<mapsto> Itoa (r_port r)) \<and>
      (flagRestart fl \<or> r_parent r = None))"

definition fanInv :: "Flags \<Rightarrow> Env \<Rightarrow> call list \<Rightarrow> world \<Rightarrow> bool" where
  "fanInv fl env calls w =
     (w_flags w = fl \<and> w_env w = env \<and> mainCalls w @ pending w = calls \<and>
      list_all (keyOk fl env calls) (w_replicas w))"

lemma map_filter_update:
  "p < length xs \<Longrightarrow> P y = P (xs ! p) \<Longrightarrow> f y = f (xs ! p) \<Longrightarrow>
     map f (filter P (xs[p := y])) = map f (filter P xs)"
proof (induction xs arbitrary: p)
  case Nil
  then show ?case by simp
next
  case (Cons x xs)
  show ?case
  proof (cases p)
    case 0
    with Cons.prems show ?thesis by simp
  next
    case (Suc n)
    with Cons.prems have "map f (filter P (xs[n := y])) = map f (filter P xs)"
      by (intro Cons.IH) simp_all
    with Suc show ?thesis by simp
  qed
qed

lemma mainCalls_update:
  assumes "p < length (w_replicas w)"
    and "r_parent (g (w_replicas w ! p)) = r_parent (w_replicas w ! p)"
    and "r_idx (g (w_replicas w ! p)) = r_idx (w_replicas w ! p)"
    and "r_procNum (g (w_replicas w ! p)) = r_procNum (w_replicas w ! p)"
    and "r_proc (g (w_replicas w ! p)) = r_proc (w_replicas w ! p)"
  shows "mainCalls (updReplica p g w) = mainCalls w"
  using assms by (simp add: mainCalls_def map_filter_update)

lemma keyOk_update:
  assumes "list_all (keyOk fl env calls) rs" "p < length rs"
    and "r_parent (g (rs ! p)) = r_parent (rs ! p)"
    and "r_idx (g (rs ! p)) = r_idx (rs ! p)"
    and "r_procNum (g (rs ! p)) = r_procNum (rs ! p)"
    and "r_proc (g (rs ! p)) = r_proc (rs ! p)"
    and "r_port (g (rs ! p)) = r_port (rs ! p)"
    and "r_procName (g (rs ! p)) = r_procName (rs ! p)"
    and "psCommand (r_ps (g (rs ! p))) = psCommand (r_ps (rs ! p))"
    and "psEnv (r_ps (g (rs ! p))) = psEnv (r_ps (rs ! p))"
  shows "list_all (keyOk fl env calls) (rs[p := g (rs ! p)])"
proof -
  from assms(1,2) have "keyOk fl env calls (rs ! p)" by (rule list_all_nth)
  with assms(3-) have "keyOk fl env calls (g (rs ! p))" by (simp add: keyOk_def)
  with assms(1) show ?thesis by (rule list_all_update)
qed

lemma fanInv_update:
  assumes "fanInv fl env calls w" "p < length (w_replicas w)"
    and "r_parent (g (w_replicas w ! p)) = r_parent (w_replicas w ! p)"
    and "r_idx (g (w_replicas w ! p)) = r_idx (w_replicas w ! p)"
    and "r_procNum (g (w_replicas w ! p)) = r_procNum (w_replicas w ! p)"
    and "r_proc (g (w_replicas w ! p)) = r_proc (w_replicas w ! p)"
    and "r_port (g (w_replicas w ! p)) = r_port (w_replicas w ! p)"
    and "r_procName (g (w_replicas w ! p)) = r_procName (w_replicas w ! p)"
    and "psCommand (r_ps (g (w_replicas w ! p))) = psCommand (r_ps (w_replicas w ! p))"
    and "psEnv (r_ps (g (w_replicas w ! p))) = psEnv (r_ps (w_replicas w ! p))"
  shows "fanInv fl env calls (updReplica p g w)"
proof -
  from assms have "mainCalls (updReplica p g w) = mainCalls w" by (intro mainCalls_update)
  moreover from assms have "list_all (keyOk fl env calls) ((w_replicas w)[p := g (w_replicas w ! p)])"
    unfolding fanInv_def by (intro keyOk_update) simp_all
  ultimately show ?thesis using assms(1) by (simp add: fanInv_def pending_def)
qed

lemma fanInv_frame:
  assumes "fanInv fl env calls w" "w_replicas w' = w_replicas w" "w_main w' = w_main w"
    "w_flags w' = w_flags w" "w_env w' = w_env w"
  shows "fanInv fl env calls w'"
  using assms by (simp add: fanInv_def mainCalls_def pending_def)

lemma newReplica_keyOk:
  "Call idx procNum proc \<in> set calls \<Longrightarrow> flagRestart fl \<or> parent = None \<Longrightarrow>
     keyOk fl env calls (newReplica fl env idx procNum proc parent)"
  by (simp add: keyOk_def newReplica_def Let_def)

lemma fanInv_step:
  assumes "fanInv fl env calls w" "step e w = Some w'"
  shows "fanInv fl env calls w'"
  using assms(2)
proof (cases rule: step_cases)
  case (Tick d)
  with assms(1) show ?thesis by (intro fanInv_frame [OF assms(1)]) simp_all
next
  case Interrupt
  then show ?thesis by (intro fanInv_frame [OF assms(1)]) simp_all
next
  case (MainStart idx i proc calls')
  with assms(1) have c: "mainCalls w @ Call idx i proc # calls' = calls"
    by (simp add: fanInv_def pending_def)
  then have "Call idx i proc \<in> set calls" by auto
  then have "keyOk fl env calls (newReplica fl env idx i proc None)"
    by (simp add: newReplica_keyOk)
  with MainStart assms(1) c show ?thesis
    by (simp add: fanInv_def pending_def mainCalls_def)
next
  case MainTeardown
  with assms(1) show ?thesis by (simp add: fanInv_def pending_def mainCalls_def)
next
  case MainWait
  with assms(1) show ?thesis by (simp add: fanInv_def pending_def mainCalls_def)
next
  case (ChildExit p)
  then show ?thesis by (simp add: fanInv_update [OF assms(1)])
next
  case (WaitReturn p)
  then show ?thesis by (simp add: fanInv_update [OF assms(1)])
next
  case (CloseFinished p)
  then show ?thesis by (simp add: fanInv_update [OF assms(1)])
next
  case (CloseFinishedPanic p)
  then show ?thesis by (intro fanInv_frame [OF assms(1)]) simp_all
next
  case (Restart p)
  let ?r = "w_replicas w ! p"
  let ?w1 = "startProcess (r_idx ?r) (r_procNum ?r) (r_proc ?r) (Some p) w"
  from assms(1) Restart(2) have k: "keyOk fl env calls ?r"
    by (simp add: fanInv_def list_all_nth)
  from assms(1) Restart(3) have "flagRestart fl" by (simp add: fanInv_def)
  moreover from k have "Call (r_idx ?r) (r_procNum ?r) (r_proc ?r) \<in> set calls"
    by (simp add: keyOk_def)
  ultimately have "keyOk fl env calls (newReplica fl env (r_idx ?r) (r_procNum ?r) (r_proc ?r) (Some p))"
    by (simp add: newReplica_keyOk)
  with assms(1) have 1: "fanInv fl env calls ?w1"
    by (simp add: fanInv_def pending_def mainCalls_def)
  from Restart(2) have nth: "w_replicas ?w1 ! p = ?r" by (simp add: nth_append)
  from Restart(2) have "p < length (w_replicas ?w1)" by simp
  with 1 have "fanInv fl env calls (updReplica p (\<lambda>r. r\<lparr>r_coord := AtDefer\<rparr>) ?w1)"
    by (rule fanInv_update) (simp_all only: nth, simp_all)
  with Restart show ?thesis by simp
next
  case (NoRestart p)
  have "fanInv fl env calls (signalShutdown w)"
    by (intro fanInv_frame [OF assms(1)]) simp_all
  with NoRestart show ?thesis by (simp add: fanInv_update)
next
  case (TeardownKill p)
  have "fanInv fl env calls (say (''Killing '' @ r_procName (w_replicas w ! p)) w)"
    by (intro fanInv_frame [OF assms(1)]) simp_all
  with TeardownKill show ?thesis by (simp add: fanInv_update Kill_def)
next
  case (TeardownTerm p)
  have "fanInv fl env calls (say (''sending SIGTERM to '' @ r_procName (w_replicas w ! p)) w)"
    by (intro fanInv_frame [OF assms(1)]) simp_all
  with TeardownTerm show ?thesis by (simp add: fanInv_update SendSigTerm_def)
next
  case (Timer p deadline)
  have "fanInv fl env calls (say (''Killing '' @ r_procName (w_replicas w ! p)) w)"
    by (intro fanInv_frame [OF assms(1)]) simp_all
  with Timer show ?thesis by (simp add: forceKill_def fanInv_update SendSigKill_def)
next
  case (TeardownNow p deadline)
  have "fanInv fl env calls (say (''Killing '' @ r_procName (w_replicas w ! p)) w)"
    by (intro fanInv_frame [OF assms(1)]) simp_all
  with TeardownNow show ?thesis by (simp add: forceKill_def fanInv_update SendSigKill_def)
next
  case (Finished2 p deadline)
  then show ?thesis by (simp add: fanInv_update [OF assms(1)])
next
  case (Complete p)
  have "fanInv fl env calls (w\<lparr>w_f := (w_f w)\<lparr>wg := wg (w_f w) - 1\<rparr>\<rparr>)"
    by (intro fanInv_frame [OF assms(1)]) simp_all
  with Complete show ?thesis by (simp add: fanInv_update)
next
  case (CompletePanic p)
  then show ?thesis by (intro fanInv_frame [OF assms(1)]) simp_all
qed

subsection \<open>The loops of runStart\<close>

lemma innerLoop_eq:
  "innerLoop singleton idx proc n i =
     (if singleton = [] \<or> singleton = Name proc then map (\<lambda>j. Call idx j proc) [i..n - 1] else [])"
proof (induction singleton idx proc n i rule: innerLoop.induct)
  case (1 singleton idx proc n i)
  show ?case
  proof (cases "i < n")
    case True
    then have "[i..n - 1] = i # [i + 1..n - 1]" by (simp add: upto_rec1)
    with True 1 show ?thesis by (simp add: innerLoop.simps [of singleton idx proc n i])
  next
    case False
    then show ?thesis by (simp add: innerLoop.simps [of singleton idx proc n i])
  qed
qed

lemma outerLoop_mem:
  "Call idx j proc \<in> set (outerLoop concurrency singleton k entries) \<longleftrightarrow>
     k \<le> idx \<and> idx < k + int (length entries) \<and> proc = entries ! nat (idx - k) \<and>
     0 \<le> j \<and> j < numProcs concurrency proc \<and> (singleton = [] \<or> singleton = Name proc)"
proof (induction entries arbitrary: k)
  case Nil
  then show ?case by auto
next
  case (Cons e entries)
  have inner: "Call idx j proc \<in> set (innerLoop singleton k e (numProcs concurrency e) 0) \<longleftrightarrow>
      idx = k \<and> proc = e \<and> 0 \<le> j \<and> j < numProcs concurrency e \<and>
      (singleton = [] \<or> singleton = Name e)"
    by (auto simp: innerLoop_eq)
  have split: "Call idx j proc \<in> set (outerLoop concurrency singleton k (e # entries)) \<longleftrightarrow>
      (idx = k \<and> proc = e \<and> 0 \<le> j \<and> j < numProcs concurrency e \<and>
        (singleton = [] \<or> singleton = Name e)) \<or>
      (k + 1 \<le> idx \<and> idx < k + 1 + int (length entries) \<and>
        proc = entries ! nat (idx - (k + 1)) \<and>
        0 \<le> j \<and> j < numProcs concurrency proc \<and> (singleton = [] \<or> singleton = Name proc))"
    by (simp add: inner Cons.IH)
  show ?case
  proof (cases "idx = k")
    case True
    show ?thesis unfolding split using True by auto
  next
    case False
    have "(e # entries) ! nat (idx - k) = entries ! nat (idx - (k + 1))" if "k \<le> idx"
    proof -
      from that False have "nat (idx - k) = Suc (nat (idx - (k + 1)))" by simp
      then show ?thesis by simp
    qed
    then show ?thesis unfolding split using False by auto
  qed
qed

lemma outerLoop_length:
  "length (outerLoop concurrency [] k entries) = (\<Sum>proc\<leftarrow>entries. nat (numProcs concurrency proc))"
  by (induction entries arbitrary: k) (simp_all add: innerLoop_eq)

lemma parseConcurrency_range:
  assumes "parseConcurrency v = (m, None)" "m k = Some x"
  shows "- 32768 \<le> x \<and> x \<le> 32767"
proof (cases "TrimSpace v = []")
  case True
  with assms show ?thesis by (auto simp: parseConcurrency_def)
next
  case False
  with assms have "parseParts Map.empty (Split v CHR '','') = (m, None)"
    by (simp add: parseConcurrency_def)
  from this assms(2) show ?thesis by (rule parseParts_range) simp
qed

lemma numProcs_le:
  "parseConcurrency v = (concurrency, None) \<Longrightarrow> numProcs concurrency proc \<le> 32767"
  by (auto simp: numProcs_def split: option.splits dest: parseConcurrency_range)

subsection \<open>The world that runStart makes\<close>

definition theSingleton :: "string list \<Rightarrow> string" where
  "theSingleton args = (case args of [] \<Rightarrow> [] | a # _ \<Rightarrow> a)"

definition firstWorld :: "Flags \<Rightarrow> Env \<Rightarrow> call list \<Rightarrow> nat \<Rightarrow> world" where
  "firstWorld fl env calls t =
     \<lparr>w_flags = fl, w_env = env, w_f = newForego, w_replicas = [], w_out = [],
      w_main = Fanout calls, w_first = True, w_once = False, w_now = t, w_panicked = False\<rparr>"

lemma runStart_Started:
  assumes "runStart fl pf env t args = Started w0"
  obtains concurrency where "parseConcurrency (flagConcurrency fl) = (concurrency, None)"
    and "w0 = firstWorld fl (fst env) (outerLoop concurrency (theSingleton args) 0 (fst pf)) t"
    and "snd pf = None" and "snd env = None"
proof -
  obtain concurrency err where p: "parseConcurrency (flagConcurrency fl) = (concurrency, err)"
    by (cases "parseConcurrency (flagConcurrency fl)")
  with assms have "err = None" "snd pf = None" "snd env = None"
    by (auto simp: runStart_def handleError_def split: option.splits)
  moreover from this p assms
  have "w0 = firstWorld fl (fst env) (outerLoop concurrency (theSingleton args) 0 (fst pf)) t"
    by (auto simp: runStart_def handleError_def firstWorld_def theSingleton_def Let_def
        split: if_splits)
  ultimately show ?thesis using p that by simp
qed

lemma firstWorld_inv: "inv (firstWorld fl env calls t)"
  by (simp add: inv_def firstWorld_def newForego_def onceOk_def)

lemma firstWorld_fanInv: "fanInv fl env calls (firstWorld fl env calls t)"
  by (simp add: fanInv_def firstWorld_def mainCalls_def pending_def)

lemma reachable_inv: "reachable (firstWorld fl env calls t) w \<Longrightarrow> inv w"
  by (erule reachable_invariant [where P = inv]) (simp_all add: firstWorld_inv inv_step)

lemma reachable_fanInv: "reachable (firstWorld fl env calls t) w \<Longrightarrow> fanInv fl env calls w"
  by (erule reachable_invariant [where P = "fanInv fl env calls"])
    (simp_all add: firstWorld_fanInv fanInv_step)

lemma inv_reachable: "inv w \<Longrightarrow> reachable w w' \<Longrightarrow> inv w'"
  by (erule reachable_invariant [where P = inv, rotated]) (simp_all add: inv_step)

subsection \<open>The start announcements\<close>

definition startLine :: "replica \<Rightarrow> message" where
  "startLine r = SystemOutput (''starting '' @ r_procName r @ '' on port '' @ Itoa (r_port r))"

definition announced :: "world \<Rightarrow> bool" where
  "announced w = list_all (\<lambda>r. startLine r \<in> set (w_out w)) (w_replicas w)"

lemma map_update_same: "f y = f (xs ! p) \<Longrightarrow> map f (xs[p := y]) = map f xs"
proof (induction xs arbitrary: p)
  case Nil
  then show ?case by simp
next
  case (Cons x xs)
  then show ?case by (cases p) simp_all
qed

lemma announced_frame:
  assumes "announced w" "set (w_out w) \<subseteq> set (w_out w')"
    "map startLine (w_replicas w') = map startLine (w_replicas w)"
  shows "announced w'"
proof -
  from assms(1) have "list_all (\<lambda>l. l \<in> set (w_out w)) (map startLine (w_replicas w))"
    by (simp add: announced_def list_all_iff)
  with assms(2) have "list_all (\<lambda>l. l \<in> set (w_out w')) (map startLine (w_replicas w))"
    by (auto simp: list_all_iff)
  with assms(3) have "list_all (\<lambda>l. l \<in> set (w_out w')) (map startLine (w_replicas w'))"
    by simp
  then show ?thesis by (simp add: announced_def list_all_iff)
qed

lemma announced_start:
  assumes "announced w"
  shows "announced (startProcess idx procNum proc parent w)"
  using assms by (auto simp: announced_def startProcess_eq startLine_def list_all_iff)

lemma announced_step:
  assumes "announced w" "step e w = Some w'"
  shows "announced w'"
  using assms(2)
proof (cases rule: step_cases)
  case (MainStart idx i proc calls)
  have "announced (w\<lparr>w_main := Fanout calls\<rparr>)"
    by (rule announced_frame [OF assms(1)]) simp_all
  with MainStart show ?thesis by (simp add: announced_start)
next
  case (Restart p)
  let ?r = "w_replicas w ! p"
  let ?w1 = "startProcess (r_idx ?r) (r_procNum ?r) (r_proc ?r) (Some p) w"
  from assms(1) have 1: "announced ?w1" by (rule announced_start)
  from Restart(2) have "w_replicas ?w1 ! p = ?r" by (simp add: nth_append)
  then have "map startLine (w_replicas (updReplica p (\<lambda>r. r\<lparr>r_coord := AtDefer\<rparr>) ?w1))
      = map startLine (w_replicas ?w1)"
    by (simp only: updReplica_fields) (rule map_update_same, simp add: startLine_def)
  with 1 Restart show ?thesis by (intro announced_frame [OF 1]) simp_all
next
  case Interrupt
  have "set (w_out w) \<subseteq> set (w_out (monitorInterrupt w))"
    by (auto simp: monitorInterrupt_def Let_def close_chan_def signalShutdown_def panic_def
        split: chan.splits option.splits)
  with Interrupt show ?thesis by (intro announced_frame [OF assms(1)]) simp_all
qed (rule announced_frame [OF assms(1)];
     (simp add: map_update_same startLine_def forceKill_def subset_iff)?)+

lemma reachable_announced: "reachable (firstWorld fl env calls t) w \<Longrightarrow> announced w"
  by (erule reachable_invariant [where P = announced])
    (simp_all add: announced_step, simp add: announced_def firstWorld_def)

lemma inv_replicaOk: "inv w \<Longrightarrow> list_all replicaOk (w_replicas w)"
  unfolding inv_def by (elim conjE)

lemma inv_not_panicked: "inv w \<Longrightarrow> \<not> w_panicked w"
  unfolding inv_def by (elim conjE)

lemma inv_onceOk: "inv w \<Longrightarrow> onceOk (w_f w)"
  unfolding inv_def by (elim conjE)

lemma replicaOk_done:
  "replicaOk r \<Longrightarrow> r_coord r = CoordDone \<Longrightarrow> r_waiter r = WaiterDone \<and> psChild (r_ps r) = Reaped"
  unfolding replicaOk_def by (elim conjE) auto

lemma inv_Returned:
  assumes "inv w" "w_main w = Returned"
  shows "filter active (w_replicas w) = []"
proof -
  from assms(1) have a: "wg (w_f w) = int (length (filter active (w_replicas w)))"
    unfolding inv_def by (elim conjE)
  from assms(1) have b: "w_main w = Returned \<longrightarrow> wg (w_f w) = 0"
    unfolding inv_def by (elim conjE)
  from b assms(2) have "wg (w_f w) = 0" by (rule mp)
  with a have "int (length (filter active (w_replicas w))) = 0" by (simp only:)
  then show ?thesis by simp
qed

subsection \<open>A run of the supervisor\<close>

definition demoFlags :: "string \<Rightarrow> bool \<Rightarrow> Flags" where
  "demoFlags spec restart =
     \<lparr>flagProcfile = ''Procfile'', flagEnv = [], flagPort = 5000, flagConcurrency = spec,
      flagRestart = restart, osHaveSigTerm = True\<rparr>"

definition demoProcfile :: "ProcfileEntry list" where
  "demoProcfile =
     [\<lparr>Name = ''web'', Command = ''run web''\<rparr>, \<lparr>Name = ''worker'', Command = ''run worker''\<rparr>]"

definition demoWorld :: "bool \<Rightarrow> world" where
  "demoWorld restart =
     firstWorld (demoFlags ''web=2,worker=1'' restart) Map.empty
       [Call 0 0 \<lparr>Name = ''web'', Command = ''run web''\<rparr>,
        Call 0 1 \<lparr>Name = ''web'', Command = ''run web''\<rparr>,
        Call 1 0 \<lparr>Name = ''worker'', Command = ''run worker''\<rparr>] 0"

definition demoRun :: "event list" where
  \<comment> \<open>web.2 exits, the others are stopped and exit within the grace period\<close>
  "demoRun =
     [MainStart, MainStart, MainStart, ChildExit 1, WaitReturn 1, CloseFinished 1,
      SelFinished 1, Complete 1, MainTeardown, SelTeardown 0, SelTeardown 2,
      ChildExit 2, WaitReturn 2, CloseFinished 2, SelFinished2 2, Complete 2,
      ChildExit 0, WaitReturn 0, CloseFinished 0, SelFinished2 0, Complete 0, MainWait]"

lemmas eval_parse = parseConcurrency_def parseParts_Cons partFields_def TrimSpace_def
  TrimLeft.simps TrimRight.simps spaceWidth_def spaceWidthLast_def asciiSpace_def
  multiByteSpaces_def ParseInt_def ParseUint_def isDigit_def digitVal_def wrap64_def Let_def

lemmas eval_step = step_def mainStart_def mainTeardown_def mainWait_def onReplica_def
  childExit_def waitReturn_def closeFinished_def selFinished_def selTeardown_def selTimer_def
  selTeardownNow_def selFinished2_def complete_def close_chan_def Let_def
  signalShutdown_def SignalShutdown_def startProcess_eq newReplica_def updReplica_def say_def
  forceKill_def monitorInterrupt_def panic_def SendSigTerm_def SendSigKill_def Kill_def
  firstWorld_def newForego_def demoFlags_def demoWorld_def Itoa_def natDigits.simps wrap64_def
  shutdownGraceTime_def Second_def

lemma parse_demo:
  "parseConcurrency ''web=2,worker=1'' = (Map.empty(''web'' \<mapsto> 2, ''worker'' \<mapsto> 1), None)"
  by (simp add: eval_parse)

lemma runStart_demo:
  "runStart (demoFlags ''web=2,worker=1'' restart) (demoProcfile, None) (Map.empty, None) 0 [] =
     Started (demoWorld restart)"
  by (simp add: runStart_def handleError_def demoFlags_def parse_demo firstWorld_def
      demoWorld_def demoProcfile_def numProcs_def innerLoop.simps)

lemma demoRun_exec:
  "map_option
     (\<lambda>w. (w_main w, teardown (w_f w), pending w, length (mainCalls w),
           map (\<lambda>r. (r_procName r, r_port r, psEnv (r_ps r) ''PORT'', r_idx r, r_procNum r,
                     r_coord r, r_waiter r, psChild (r_ps r))) (w_replicas w)))
     (exec demoRun (demoWorld False)) =
   Some (Returned, Closed, [], 3,
     [(''web.1'', 5000, Some ''5000'', 0, 0, CoordDone, WaiterDone, Reaped),
      (''web.2'', 5000, Some ''5000'', 0, 1, CoordDone, WaiterDone, Reaped),
      (''worker.1'', 5100, Some ''5100'', 1, 0, CoordDone, WaiterDone, Reaped)])"
  by (simp add: demoRun_def eval_step pending_def mainCalls_def)

lemma reachable_the:
  "exec es w0 \<noteq> None \<Longrightarrow> reachable w0 (the (exec es w0))"
  by (auto simp: reachable_def)

lemma demoRun_reachable: "reachable (demoWorld False) (the (exec demoRun (demoWorld False)))"
  using demoRun_exec by (intro reachable_the) auto

lemma nth_map_eq: "map f xs = ys \<Longrightarrow> n < length ys \<Longrightarrow> f (xs ! n) = ys ! n"
  by (metis length_map nth_map)

text \<open>
  C3: in every state of a run, each replica (a restarted one too) has a template index
  and a replica index of the loops of \<open>runStart\<close>, its port is
  \<open>flagPort + templateIndex * 100\<close>, whatever its replica index, its display name is the
  template's name, a dot and \<open>replicaIndex + 1\<close>, and its \<open>PORT\<close> variable is that port.
  The sum is Go's \<open>int\<close> addition; it is the integer sum as long as it does not leave
  64 bits.
\<close>

theorem replica_port_and_name:
  assumes "runStart fl (entries, None) (env, None) t args = Started w0" and "reachable w0 w"
    and "r \<in> set (w_replicas w)"
    and "- (2 ^ 63) \<le> flagPort fl" and "flagPort fl + 100 * int (length entries) < 2 ^ 63"
    and "100 * int (length entries) < 2 ^ 63"
  shows "0 \<le> r_idx r \<and> r_idx r < int (length entries) \<and> r_proc r = entries ! nat (r_idx r) \<and>
         0 \<le> r_procNum r \<and>
         r_port r = flagPort fl + r_idx r * 100 \<and>
         r_procName r = Name (r_proc r) @ ''.'' @ Itoa (r_procNum r + 1) \<and>
         psEnv (r_ps r) ''PORT'' = Some (Itoa (r_port r))"
proof -
  from assms(1) obtain concurrency
    where p: "parseConcurrency (flagConcurrency fl) = (concurrency, None)"
      and w0: "w0 = firstWorld fl env (outerLoop concurrency (theSingleton args) 0 entries) t"
    by (rule runStart_Started) simp
  let ?calls = "outerLoop concurrency (theSingleton args) 0 entries"
  from assms(2) have "fanInv fl env ?calls w" unfolding w0 by (rule reachable_fanInv)
  with assms(3) have k: "keyOk fl env ?calls r" by (simp add: fanInv_def list_all_iff)
  then have "Call (r_idx r) (r_procNum r) (r_proc r) \<in> set ?calls" by (simp add: keyOk_def)
  then have idx: "0 \<le> r_idx r" "r_idx r < int (length entries)"
    and proc: "r_proc r = entries ! nat (r_idx r)"
    and num: "0 \<le> r_procNum r" "r_procNum r < numProcs concurrency (r_proc r)"
    unfolding outerLoop_mem by (elim conjE, simp)+
  from num numProcs_le [OF p, of "r_proc r"] have "in_int64 (r_procNum r + 1)"
    by (simp add: in_int64_def)
  then have n1: "wrap64 (r_procNum r + 1) = r_procNum r + 1" by (rule wrap64_id)
  from idx assms(6) have "in_int64 (r_idx r * 100)" by (simp add: in_int64_def)
  then have i1: "wrap64 (r_idx r * 100) = r_idx r * 100" by (rule wrap64_id)
  from idx assms(4,5) have "in_int64 (flagPort fl + r_idx r * 100)" by (simp add: in_int64_def)
  then have p1: "wrap64 (flagPort fl + r_idx r * 100) = flagPort fl + r_idx r * 100"
    by (rule wrap64_id)
  from k have "r_port r = wrap64 (flagPort fl + wrap64 (r_idx r * 100))"
    and "r_procName r = Name (r_proc r) @ ''.'' @ Itoa (wrap64 (r_procNum r + 1))"
    and "psEnv (r_ps r) = env(''PORT'' \<mapsto> Itoa (r_port r))"
    by (simp_all add: keyOk_def)
  with n1 i1 p1 idx proc num(1) show ?thesis by simp
qed

theorem replica_port_and_name_witness:
  "runStart (demoFlags ''web=2,worker=1'' False) (demoProcfile, None) (Map.empty, None) 0 [] =
     Started (demoWorld False) \<and>
   exec demoRun (demoWorld False) \<noteq> None \<and>
   length (w_replicas (the (exec demoRun (demoWorld False)))) = 3 \<and>
   r_idx (w_replicas (the (exec demoRun (demoWorld False))) ! 1) = 0 \<and>
   r_procNum (w_replicas (the (exec demoRun (demoWorld False))) ! 1) = 1 \<and>
   r_port (w_replicas (the (exec demoRun (demoWorld False))) ! 1) = 5000 \<and>
   r_procName (w_replicas (the (exec demoRun (demoWorld False))) ! 1) = ''web.2'' \<and>
   psEnv (r_ps (w_replicas (the (exec demoRun (demoWorld False))) ! 1)) ''PORT'' = Some ''5000''"
proof -
  let ?w = "the (exec demoRun (demoWorld False))"
  let ?r = "w_replicas ?w ! 1"
  from demoRun_exec obtain w where w: "exec demoRun (demoWorld False) = Some w" by auto
  with demoRun_exec have rs: "map (\<lambda>r. (r_idx r, r_procNum r))
      (w_replicas ?w) = [(0, 0), (0, 1), (1, 0)]"
    by auto
  then have len: "length (w_replicas ?w) = 3" by (auto dest: arg_cong [where f = length])
  from nth_map_eq [OF rs, of 1] have key: "r_idx ?r = 0" "r_procNum ?r = 1" by simp_all
  from len have mem: "?r \<in> set (w_replicas ?w)" by simp
  have "flagPort (demoFlags ''web=2,worker=1'' False) = 5000" by (simp add: demoFlags_def)
  with replica_port_and_name [OF runStart_demo demoRun_reachable mem] key
  have "r_port ?r = 5000" "r_proc ?r = demoProcfile ! 0"
    "r_procName ?r = Name (r_proc ?r) @ ''.'' @ Itoa 2"
    "psEnv (r_ps ?r) ''PORT'' = Some (Itoa 5000)"
    by (simp_all add: demoProcfile_def)
  then show ?thesis using runStart_demo w len key
    by (simp add: demoProcfile_def Itoa_def natDigits.simps)
qed

text \<open>
  C2, as the code has it: with the concurrency spec \<open>web=2,worker=1\<close>, the templates
  \<open>web\<close> and \<open>worker\<close>, base port 5000 and no restart flag, the replicas are, once the
  loops of \<open>runStart\<close> are over and in every later state, \<open>web.1\<close> with port 5000,
  \<open>web.2\<close> with port 5000 and \<open>worker.1\<close> with port 5100; the \<open>PORT\<close> variable of each
  is its port and its start line has been printed with that port. The port follows
  the template, so \<open>web.2\<close> has the port of \<open>web.1\<close>, not 5100.
\<close>

theorem example_replicas:
  assumes "runStart (fl\<lparr>flagPort := 5000, flagConcurrency := ''web=2,worker=1'',
                       flagRestart := False\<rparr>)
             ([\<lparr>Name = ''web'', Command = c1\<rparr>, \<lparr>Name = ''worker'', Command = c2\<rparr>], None)
             (env, None) t [] = Started w0"
    and "reachable w0 w" and "pending w = []"
  shows "map (\<lambda>r. (r_procName r, r_port r, psEnv (r_ps r) ''PORT'')) (w_replicas w) =
           [(''web.1'', 5000, Some ''5000''), (''web.2'', 5000, Some ''5000''),
            (''worker.1'', 5100, Some ''5100'')] \<and>
         SystemOutput ''starting web.1 on port 5000'' \<in> set (w_out w) \<and>
         SystemOutput ''starting web.2 on port 5000'' \<in> set (w_out w) \<and>
         SystemOutput ''starting worker.1 on port 5100'' \<in> set (w_out w)"
proof -
  let ?fl = "fl\<lparr>flagPort := 5000, flagConcurrency := ''web=2,worker=1'', flagRestart := False\<rparr>"
  let ?web = "\<lparr>Name = ''web'', Command = c1\<rparr>" and ?worker = "\<lparr>Name = ''worker'', Command = c2\<rparr>"
  let ?calls = "[Call 0 0 ?web, Call 0 1 ?web, Call 1 0 ?worker]"
  from assms(1) obtain concurrency
    where p: "parseConcurrency (flagConcurrency ?fl) = (concurrency, None)"
      and w0: "w0 = firstWorld ?fl env (outerLoop concurrency [] 0 [?web, ?worker]) t"
    by (rule runStart_Started) (simp add: theSingleton_def)
  from p have "concurrency = Map.empty(''web'' \<mapsto> 2, ''worker'' \<mapsto> 1)"
    by (simp add: parse_demo)
  then have "outerLoop concurrency [] 0 [?web, ?worker] = ?calls"
    by (simp add: numProcs_def innerLoop.simps)
  with w0 have w0': "w0 = firstWorld ?fl env ?calls t" by simp
  from assms(2) have f: "fanInv ?fl env ?calls w" unfolding w0' by (rule reachable_fanInv)
  from assms(2) have a: "announced w" unfolding w0' by (rule reachable_announced)
  from f have "list_all (\<lambda>r. r_parent r = None) (w_replicas w)"
    by (auto simp: fanInv_def keyOk_def list_all_iff)
  then have "filter (\<lambda>r. r_parent r = None) (w_replicas w) = w_replicas w"
    by (simp add: list_all_iff)
  with f assms(3) have "map (\<lambda>r. Call (r_idx r) (r_procNum r) (r_proc r)) (w_replicas w) = ?calls"
    by (simp add: fanInv_def mainCalls_def)
  then obtain r1 r2 r3 where rs: "w_replicas w = [r1, r2, r3]"
    and k1: "r_idx r1 = 0" "r_procNum r1 = 0" "r_proc r1 = ?web"
    and k2: "r_idx r2 = 0" "r_procNum r2 = 1" "r_proc r2 = ?web"
    and k3: "r_idx r3 = 1" "r_procNum r3 = 0" "r_proc r3 = ?worker"
    by (auto simp: map_eq_Cons_conv)
  from f rs have "keyOk ?fl env ?calls r1" "keyOk ?fl env ?calls r2" "keyOk ?fl env ?calls r3"
    by (simp_all add: fanInv_def)
  with k1 k2 k3 have v: "r_procName r1 = ''web.1''" "r_port r1 = 5000"
    "psEnv (r_ps r1) ''PORT'' = Some ''5000''"
    "r_procName r2 = ''web.2''" "r_port r2 = 5000" "psEnv (r_ps r2) ''PORT'' = Some ''5000''"
    "r_procName r3 = ''worker.1''" "r_port r3 = 5100" "psEnv (r_ps r3) ''PORT'' = Some ''5100''"
    by (simp_all add: keyOk_def wrap64_def Itoa_def natDigits.simps)
  from a rs have "startLine r1 \<in> set (w_out w)" "startLine r2 \<in> set (w_out w)"
    "startLine r3 \<in> set (w_out w)"
    by (simp_all add: announced_def)
  with v rs show ?thesis by (simp add: startLine_def Itoa_def natDigits.simps)
qed

definition demoFanout :: "event list" where
  "demoFanout = [MainStart, MainStart, MainStart]"

lemma demoFanout_exec:
  "map_option
     (\<lambda>w. (pending w, map (\<lambda>r. (r_procName r, r_port r, psEnv (r_ps r) ''PORT'')) (w_replicas w),
           w_out w))
     (exec demoFanout (demoWorld False)) =
   Some ([], [(''web.1'', 5000, Some ''5000''), (''web.2'', 5000, Some ''5000''),
              (''worker.1'', 5100, Some ''5100'')],
         [SystemOutput ''starting web.1 on port 5000'',
          SystemOutput ''starting web.2 on port 5000'',
          SystemOutput ''starting worker.1 on port 5100''])"
  by (simp add: demoFanout_def eval_step pending_def)

theorem example_replicas_witness:
  "runStart (demoFlags ''web=2,worker=1'' False) (demoProcfile, None) (Map.empty, None) 0 [] =
     Started (demoWorld False) \<and>
   exec demoFanout (demoWorld False) \<noteq> None \<and>
   pending (the (exec demoFanout (demoWorld False))) = [] \<and>
   map (\<lambda>r. (r_procName r, r_port r, psEnv (r_ps r) ''PORT''))
     (w_replicas (the (exec demoFanout (demoWorld False)))) =
     [(''web.1'', 5000, Some ''5000''), (''web.2'', 5000, Some ''5000''),
      (''worker.1'', 5100, Some ''5100'')] \<and>
   SystemOutput ''starting web.2 on port 5000''
     \<in> set (w_out (the (exec demoFanout (demoWorld False))))"
proof -
  let ?w = "the (exec demoFanout (demoWorld False))"
  from demoFanout_exec obtain w where w: "exec demoFanout (demoWorld False) = Some w" by auto
  with demoFanout_exec have pe: "pending ?w = []" by auto
  from w have re: "reachable (demoWorld False) ?w" by (auto simp: reachable_def)
  have "runStart ((demoFlags [] True)\<lparr>flagPort := 5000, flagConcurrency := ''web=2,worker=1'',
                       flagRestart := False\<rparr>)
             ([\<lparr>Name = ''web'', Command = ''run web''\<rparr>,
               \<lparr>Name = ''worker'', Command = ''run worker''\<rparr>], None)
             (Map.empty, None) 0 [] = Started (demoWorld False)"
    using runStart_demo [of False] by (simp add: demoFlags_def demoProcfile_def)
  from example_replicas [OF this re pe] runStart_demo w pe show ?thesis by simp
qed

theorem example_web2_port_counterexample:
  "runStart (demoFlags ''web=2,worker=1'' False) (demoProcfile, None) (Map.empty, None) 0 [] =
     Started (demoWorld False) \<and>
   map_option (\<lambda>w. map (\<lambda>r. (r_procName r, r_port r)) (w_replicas w))
     (exec demoFanout (demoWorld False)) =
     Some [(''web.1'', 5000), (''web.2'', 5000), (''worker.1'', 5100)] \<and>
   map_option (\<lambda>w. map (\<lambda>r. (r_procName r, r_port r)) (w_replicas w))
     (exec demoFanout (demoWorld False)) \<noteq>
     Some [(''web.1'', 5000), (''web.2'', 5100), (''worker.1'', 5100)]"
proof -
  from demoFanout_exec obtain w where w: "exec demoFanout (demoWorld False) = Some w" by auto
  with demoFanout_exec
  have "map (\<lambda>r. (r_procName r, r_port r, psEnv (r_ps r) ''PORT'')) (w_replicas w) =
      [(''web.1'', 5000, Some ''5000''), (''web.2'', 5000, Some ''5000''),
       (''worker.1'', 5100, Some ''5100'')]"
    by simp
  then have "map (\<lambda>x. (fst x, fst (snd x)))
      (map (\<lambda>r. (r_procName r, r_port r, psEnv (r_ps r) ''PORT'')) (w_replicas w)) =
      [(''web.1'', 5000), (''web.2'', 5000), (''worker.1'', 5100)]"
    by (simp only: list.map fst_conv snd_conv)
  then have "map (\<lambda>r. (r_procName r, r_port r)) (w_replicas w) =
      [(''web.1'', 5000), (''web.2'', 5000), (''worker.1'', 5100)]"
    by (simp add: comp_def)
  with w runStart_demo show ?thesis by simp
qed

subsection \<open>The graceful barrier\<close>

lemma signalShutdown_keeps_closed:
  "teardown (w_f w) = Closed \<Longrightarrow> teardown (w_f (signalShutdown w)) = Closed"
  by (simp add: signalShutdown_def SignalShutdown_def close_chan_def panic_def)

lemma monitorInterrupt_keeps_closed:
  "teardown (w_f w) = Closed \<Longrightarrow> teardown (w_f (monitorInterrupt w)) = Closed"
  by (simp add: monitorInterrupt_def Let_def signalShutdown_def SignalShutdown_def
      close_chan_def panic_def split: chan.splits)

lemma step_keeps_closed:
  assumes "step e w = Some w'" "teardown (w_f w) = Closed"
  shows "teardown (w_f w') = Closed"
  using assms(1)
proof (cases rule: step_cases)
  case Interrupt
  with assms(2) show ?thesis by (simp add: monitorInterrupt_keeps_closed)
next
  case (NoRestart p)
  with assms(2) show ?thesis by (simp add: signalShutdown_keeps_closed)
qed (simp_all add: assms(2))

lemma reachable_keeps_closed:
  "reachable w w' \<Longrightarrow> teardown (w_f w) = Closed \<Longrightarrow> teardown (w_f w') = Closed"
  by (erule reachable_invariant [where P = "\<lambda>w. teardown (w_f w) = Closed"])
    (simp_all add: step_keeps_closed)

lemma signalShutdown_twice:
  assumes "onceOk (w_f w)"
  shows "signalShutdown (signalShutdown w) = signalShutdown w"
proof -
  have "onceOk (w_f (signalShutdown w))"
    by (simp add: signalShutdown_onceOk [OF assms] onceOk_def)
  then show ?thesis by (simp add: signalShutdown_onceOk assms)
qed

lemma signalShutdown_many:
  assumes "onceOk (w_f w)"
  shows "(signalShutdown ^^ Suc n) w = signalShutdown w"
proof (induction n)
  case 0
  then show ?case by simp
next
  case (Suc n)
  have "(signalShutdown ^^ Suc (Suc n)) w = signalShutdown ((signalShutdown ^^ Suc n) w)"
    by simp
  also have "\<dots> = signalShutdown (signalShutdown w)" by (simp only: Suc.IH)
  also have "\<dots> = signalShutdown w" by (rule signalShutdown_twice [OF assms])
  finally show ?case .
qed

lemma signalShutdown_noop:
  assumes "onceOk (w_f w)" "teardown (w_f w) = Closed"
  shows "signalShutdown w = w"
proof -
  from assms have "shutdown (w_f w)" by (simp add: onceOk_def)
  then show ?thesis by (simp add: signalShutdown_def SignalShutdown_def)
qed

definition demoExit :: "event list" where
  \<comment> \<open>web.2 exits and its coordinator sees it\<close>
  "demoExit =
     [MainStart, MainStart, MainStart, ChildExit 1, WaitReturn 1, CloseFinished 1]"

lemma demoExit_exec:
  "map_option
     (\<lambda>w. (w_main w, w_f w, w_panicked w, w_now w, w_out w,
           map (\<lambda>r. (r_procName r, r_port r, r_coord r, r_finished r, psChild (r_ps r),
                     sigTerms (r_ps r), sigKills (r_ps r), r_parent r)) (w_replicas w)))
     (exec demoExit (demoWorld restart)) =
   Some (Fanout [], \<lparr>shutdown = False, teardown = Open, teardownNow = Open, wg = 3\<rparr>, False, 0,
     [SystemOutput ''starting web.1 on port 5000'', SystemOutput ''starting web.2 on port 5000'',
      SystemOutput ''starting worker.1 on port 5100''],
     [(''web.1'', 5000, AtSelect, Open, Alive, 0, 0, None),
      (''web.2'', 5000, AtSelect, Closed, Reaped, 0, 0, None),
      (''worker.1'', 5100, AtSelect, Open, Alive, 0, 0, None)])"
  by (simp add: demoExit_def eval_step)

lemma demoExit_Some: "exec demoExit (demoWorld restart) = Some (the (exec demoExit (demoWorld restart)))"
  using demoExit_exec [of restart] by auto

lemma demoExit_reachable:
  "reachable (demoWorld restart) (the (exec demoExit (demoWorld restart)))"
  using demoExit_Some [of restart] unfolding reachable_def by blast

text \<open>
  C7: in every state of a run, whichever goroutines have called it before and however
  often, \<open>SignalShutdown\<close> does not panic and leaves the graceful barrier tripped; any
  number of calls in a row has the effect of one; a call with the barrier tripped
  changes nothing; and no step of the program opens a tripped barrier again.
\<close>

theorem SignalShutdown_trips_once:
  assumes "runStart fl pf env t args = Started w0" and "reachable w0 w"
  shows "SignalShutdown (w_f w) = Some ((w_f w)\<lparr>shutdown := True, teardown := Closed\<rparr>) \<and>
         \<not> w_panicked (signalShutdown w) \<and>
         teardown (w_f (signalShutdown w)) = Closed \<and>
         (signalShutdown ^^ Suc n) w = signalShutdown w \<and>
         (teardown (w_f w) = Closed \<longrightarrow> signalShutdown w = w) \<and>
         (teardown (w_f w) = Closed \<and> reachable w w' \<longrightarrow> teardown (w_f w') = Closed)"
proof -
  from assms(1) obtain concurrency
    where w0: "w0 = firstWorld fl (fst env) (outerLoop concurrency (theSingleton args) 0 (fst pf)) t"
    by (rule runStart_Started)
  from assms(2) have i: "inv w" unfolding w0 by (rule reachable_inv)
  then have o: "onceOk (w_f w)" and np: "\<not> w_panicked w"
    by (simp_all add: inv_onceOk inv_not_panicked)
  from o have 1: "SignalShutdown (w_f w) = Some ((w_f w)\<lparr>shutdown := True, teardown := Closed\<rparr>)"
    by (rule SignalShutdown_onceOk)
  from o np have 2: "\<not> w_panicked (signalShutdown w)" "teardown (w_f (signalShutdown w)) = Closed"
    by (simp_all add: signalShutdown_onceOk)
  from o have 3: "(signalShutdown ^^ Suc n) w = signalShutdown w" by (rule signalShutdown_many)
  from o have 4: "teardown (w_f w) = Closed \<longrightarrow> signalShutdown w = w"
    by (simp add: signalShutdown_noop)
  have 5: "teardown (w_f w) = Closed \<and> reachable w w' \<longrightarrow> teardown (w_f w') = Closed"
    by (auto intro: reachable_keeps_closed)
  show ?thesis by (intro conjI) (rule 1 2 3 4 5)+
qed

lemma step_Interrupt:
  "\<not> w_panicked w \<Longrightarrow> w_main w \<noteq> Returned \<Longrightarrow> step Interrupt w = Some (monitorInterrupt w)"
  by (simp add: step_def)

definition demoTrip :: "event list" where
  \<comment> \<open>web.2 exits, its coordinator sees it and trips the graceful barrier\<close>
  "demoTrip =
     [MainStart, MainStart, MainStart, ChildExit 1, WaitReturn 1, CloseFinished 1, SelFinished 1]"

lemma demoTrip_exec:
  "map_option
     (\<lambda>w. (w_main w, w_f w, w_panicked w, w_now w,
           map (\<lambda>r. (r_procName r, r_port r, r_coord r, r_finished r, psChild (r_ps r),
                     sigTerms (r_ps r), sigKills (r_ps r), r_parent r)) (w_replicas w)))
     (exec demoTrip (demoWorld False)) =
   Some (Fanout [], \<lparr>shutdown = True, teardown = Closed, teardownNow = Open, wg = 3\<rparr>, False, 0,
     [(''web.1'', 5000, AtSelect, Open, Alive, 0, 0, None),
      (''web.2'', 5000, AtDefer, Closed, Reaped, 0, 0, None),
      (''worker.1'', 5100, AtSelect, Open, Alive, 0, 0, None)])"
  by (simp add: demoTrip_def eval_step)

lemma demoTrip_Some: "exec demoTrip (demoWorld False) = Some (the (exec demoTrip (demoWorld False)))"
  using demoTrip_exec by auto

lemma demoTrip_reachable: "reachable (demoWorld False) (the (exec demoTrip (demoWorld False)))"
  using demoTrip_Some unfolding reachable_def by blast

theorem SignalShutdown_trips_once_witness:
  "runStart (demoFlags ''web=2,worker=1'' False) (demoProcfile, None) (Map.empty, None) 0 [] =
     Started (demoWorld False) \<and>
   exec demoExit (demoWorld False) \<noteq> None \<and>
   teardown (w_f (the (exec demoExit (demoWorld False)))) = Open \<and>
   teardown (w_f (signalShutdown (the (exec demoExit (demoWorld False))))) = Closed \<and>
   signalShutdown (signalShutdown (signalShutdown (the (exec demoExit (demoWorld False))))) =
     signalShutdown (the (exec demoExit (demoWorld False))) \<and>
   exec demoTrip (demoWorld False) \<noteq> None \<and>
   teardown (w_f (the (exec demoTrip (demoWorld False)))) = Closed \<and>
   signalShutdown (the (exec demoTrip (demoWorld False))) = the (exec demoTrip (demoWorld False)) \<and>
   step Interrupt (the (exec demoTrip (demoWorld False))) =
     Some (monitorInterrupt (the (exec demoTrip (demoWorld False)))) \<and>
   teardown (w_f (monitorInterrupt (the (exec demoTrip (demoWorld False))))) = Closed"
proof -
  let ?w = "the (exec demoExit (demoWorld False))"
  let ?w1 = "the (exec demoTrip (demoWorld False))"
  from demoTrip_exec demoTrip_Some
  have c1: "teardown (w_f ?w1) = Closed" and n1: "\<not> w_panicked ?w1" "w_main ?w1 \<noteq> Returned"
    by auto
  from n1 have s2: "step Interrupt ?w1 = Some (monitorInterrupt ?w1)" by (rule step_Interrupt)
  then have r12: "reachable ?w1 (monitorInterrupt ?w1)" by (rule reachable_step [OF reachable_refl])
  from demoExit_exec [of False] demoExit_Some [of False]
  have o: "teardown (w_f ?w) = Open" by auto
  note a = SignalShutdown_trips_once [OF runStart_demo demoExit_reachable, where n = 2]
  note b = SignalShutdown_trips_once [OF runStart_demo demoTrip_reachable,
      where n = 0 and w' = "monitorInterrupt ?w1"]
  from a have "teardown (w_f (signalShutdown ?w)) = Closed"
    "signalShutdown (signalShutdown (signalShutdown ?w)) = signalShutdown ?w"
    by (simp_all add: numeral_3_eq_3)
  moreover from b c1 r12
  have "signalShutdown ?w1 = ?w1" "teardown (w_f (monitorInterrupt ?w1)) = Closed"
    by simp_all
  moreover from demoExit_exec [of False] have "exec demoExit (demoWorld False) \<noteq> None" by auto
  moreover from demoTrip_exec have "exec demoTrip (demoWorld False) \<noteq> None" by auto
  ultimately show ?thesis
    using runStart_demo [of False] o c1 s2 by simp
qed

subsection \<open>Signals sent to a child\<close>

lemma step_signals_final:
  assumes "step e w = Some w'" and "q < length (w_replicas w)"
    and "r_coord (w_replicas w ! q) = AtDefer \<or> r_coord (w_replicas w ! q) = CoordDone"
  shows "q < length (w_replicas w') \<and>
         (r_coord (w_replicas w' ! q) = AtDefer \<or> r_coord (w_replicas w' ! q) = CoordDone) \<and>
         sigKills (r_ps (w_replicas w' ! q)) = sigKills (r_ps (w_replicas w ! q)) \<and>
         sigTerms (r_ps (w_replicas w' ! q)) = sigTerms (r_ps (w_replicas w ! q))"
  using assms(1)
proof (cases rule: step_cases)
  case (ChildExit p)
  with assms(2,3) show ?thesis by (cases "p = q") (auto simp: nth_list_update)
next
  case (WaitReturn p)
  with assms(2,3) show ?thesis by (cases "p = q") (auto simp: nth_list_update)
next
  case (CloseFinished p)
  with assms(2,3) show ?thesis by (cases "p = q") (auto simp: nth_list_update)
next
  case (Restart p)
  with assms(2,3) show ?thesis by (cases "p = q") (auto simp: nth_list_update nth_append)
next
  case (NoRestart p)
  with assms(2,3) show ?thesis by (cases "p = q") (auto simp: nth_list_update)
next
  case (TeardownKill p)
  with assms(2,3) show ?thesis by (cases "p = q") (auto simp: nth_list_update)
next
  case (TeardownTerm p)
  with assms(2,3) show ?thesis by (cases "p = q") (auto simp: nth_list_update)
next
  case (Timer p deadline)
  with assms(2,3) show ?thesis by (cases "p = q") (auto simp: nth_list_update)
next
  case (TeardownNow p deadline)
  with assms(2,3) show ?thesis by (cases "p = q") (auto simp: nth_list_update)
next
  case (Finished2 p deadline)
  with assms(2,3) show ?thesis by (cases "p = q") (auto simp: nth_list_update)
next
  case (Complete p)
  with assms(2,3) show ?thesis by (cases "p = q") (auto simp: nth_list_update)
next
  case (MainStart idx i proc calls)
  with assms(2,3) show ?thesis by (auto simp: nth_append)
qed (use assms(2,3) in auto)

lemma reachable_signals_final:
  assumes "reachable w w'" and "q < length (w_replicas w)"
    and "r_coord (w_replicas w ! q) = AtDefer \<or> r_coord (w_replicas w ! q) = CoordDone"
  shows "sigKills (r_ps (w_replicas w' ! q)) = sigKills (r_ps (w_replicas w ! q)) \<and>
         sigTerms (r_ps (w_replicas w' ! q)) = sigTerms (r_ps (w_replicas w ! q))"
proof -
  let ?P = "\<lambda>v. q < length (w_replicas v) \<and>
         (r_coord (w_replicas v ! q) = AtDefer \<or> r_coord (w_replicas v ! q) = CoordDone) \<and>
         sigKills (r_ps (w_replicas v ! q)) = sigKills (r_ps (w_replicas w ! q)) \<and>
         sigTerms (r_ps (w_replicas v ! q)) = sigTerms (r_ps (w_replicas w ! q))"
  from assms(1) have "?P w'"
  proof (rule reachable_invariant)
    from assms(2,3) show "?P w" by simp
  next
    fix e v v'
    assume p: "?P v" and s: "step e v = Some v'"
    from p step_signals_final [OF s, of q] show "?P v'" by simp
  qed
  then show ?thesis by simp
qed

lemma inv_active_running:
  assumes "inv w" "p < length (w_replicas w)" "r_coord (w_replicas w ! p) \<noteq> CoordDone"
  shows "\<not> w_panicked w \<and> w_main w \<noteq> Returned"
proof -
  from assms(2,3) have "w_replicas w ! p \<in> set (filter active (w_replicas w))"
    by (simp add: active_def)
  then have "0 < length (filter active (w_replicas w))" by (rule length_pos_if_in_set)
  then have "filter active (w_replicas w) \<noteq> []" by simp
  with assms(1) show ?thesis by (auto dest: inv_Returned inv_not_panicked)
qed

lemma step_replica:
  "\<not> w_panicked w \<Longrightarrow> w_main w \<noteq> Returned \<Longrightarrow> p < length (w_replicas w) \<Longrightarrow>
     replicaOf e = Some p \<Longrightarrow> step e w = fire e w"
  by (simp add: step_def)

lemma forceKill_nth:
  "p < length (w_replicas w) \<Longrightarrow>
     w_replicas (forceKill p w) ! p =
       (w_replicas w ! p)\<lparr>r_ps := SendSigKill (r_ps (w_replicas w ! p)), r_coord := AtDefer\<rparr>"
  by simp

text \<open>
  C6: a coordinator that takes the \<open>teardown\<close> case on a platform with SIGTERM sends
  one SIGTERM and waits with a timer of 3 seconds. While it waits it has sent no kill,
  and exactly three things can move it: the timer case once 3 seconds have passed, the
  \<open>teardownNow\<close> case once the urgent barrier is tripped (whatever the timer), and the
  \<open>finished\<close> case once the child has been reaped. The first two print the kill line
  and send one kill, the third sends none, and in every later state that number has
  not changed. An interrupt after the first one trips the urgent barrier.
\<close>

theorem grace_period_kill_once:
  assumes "runStart fl pf env t args = Started w0" and "reachable w0 w"
    and "p < length (w_replicas w)"
  shows "(osHaveSigTerm fl \<and> step (SelTeardown p) w = Some w1 \<longrightarrow>
            teardown (w_f w) = Closed \<and>
            r_coord (w_replicas w1 ! p) = AtGrace (w_now w + 3000000000) \<and>
            sigTerms (r_ps (w_replicas w1 ! p)) = 1 \<and> sigKills (r_ps (w_replicas w1 ! p)) = 0) \<and>
         (r_coord (w_replicas w ! p) = AtGrace deadline \<longrightarrow>
            sigTerms (r_ps (w_replicas w ! p)) = 1 \<and> sigKills (r_ps (w_replicas w ! p)) = 0 \<and>
            (step (SelTimer p) w \<noteq> None \<longleftrightarrow> deadline \<le> w_now w) \<and>
            (step (SelTeardownNow p) w \<noteq> None \<longleftrightarrow> teardownNow (w_f w) = Closed) \<and>
            (step (SelFinished2 p) w \<noteq> None \<longleftrightarrow> r_finished (w_replicas w ! p) = Closed) \<and>
            step (SelFinished p) w = None \<and> step (SelTeardown p) w = None \<and>
            step (Complete p) w = None \<and>
            ((step (SelTimer p) w = Some w2 \<or> step (SelTeardownNow p) w = Some w2) \<and>
               reachable w2 w3 \<longrightarrow>
               w_out w2 = w_out w @ [SystemOutput (''Killing '' @ r_procName (w_replicas w ! p))] \<and>
               r_coord (w_replicas w2 ! p) = AtDefer \<and>
               sigKills (r_ps (w_replicas w3 ! p)) = 1) \<and>
            (step (SelFinished2 p) w = Some w2 \<and> reachable w2 w3 \<longrightarrow>
               w_out w2 = w_out w \<and> r_coord (w_replicas w2 ! p) = AtDefer \<and>
               sigKills (r_ps (w_replicas w3 ! p)) = 0)) \<and>
         (step Interrupt w = Some w4 \<and> \<not> w_first w \<longrightarrow> teardownNow (w_f w4) = Closed)"
proof -
  from assms(1) obtain concurrency
    where w0: "w0 = firstWorld fl (fst env) (outerLoop concurrency (theSingleton args) 0 (fst pf)) t"
    by (rule runStart_Started)
  let ?r = "w_replicas w ! p"
  from assms(2) have i: "inv w" unfolding w0 by (rule reachable_inv)
  from assms(2) have "fanInv fl (fst env) (outerLoop concurrency (theSingleton args) 0 (fst pf)) w"
    unfolding w0 by (rule reachable_fanInv)
  then have fl: "w_flags w = fl" by (simp add: fanInv_def)
  from inv_replicaOk [OF i] assms(3) have ok: "replicaOk ?r" by (rule list_all_nth)
  have A: "teardown (w_f w) = Closed \<and>
            r_coord (w_replicas w1 ! p) = AtGrace (w_now w + 3000000000) \<and>
            sigTerms (r_ps (w_replicas w1 ! p)) = 1 \<and> sigKills (r_ps (w_replicas w1 ! p)) = 0"
    if "osHaveSigTerm fl" and s: "step (SelTeardown p) w = Some w1"
  proof -
    from s show ?thesis
    proof (cases rule: step_cases)
      case (TeardownKill p')
      with that fl show ?thesis by simp
    next
      case (TeardownTerm p')
      then have "p' = p" by simp
      with TeardownTerm ok assms(3) show ?thesis
        by (simp add: replicaOk_def SendSigTerm_def shutdownGraceTime_def Second_def)
    qed simp_all
  qed
  have B: "sigTerms (r_ps ?r) = 1 \<and> sigKills (r_ps ?r) = 0 \<and>
            (step (SelTimer p) w \<noteq> None \<longleftrightarrow> deadline \<le> w_now w) \<and>
            (step (SelTeardownNow p) w \<noteq> None \<longleftrightarrow> teardownNow (w_f w) = Closed) \<and>
            (step (SelFinished2 p) w \<noteq> None \<longleftrightarrow> r_finished ?r = Closed) \<and>
            step (SelFinished p) w = None \<and> step (SelTeardown p) w = None \<and>
            step (Complete p) w = None \<and>
            ((step (SelTimer p) w = Some w2 \<or> step (SelTeardownNow p) w = Some w2) \<and>
               reachable w2 w3 \<longrightarrow>
               w_out w2 = w_out w @ [SystemOutput (''Killing '' @ r_procName ?r)] \<and>
               r_coord (w_replicas w2 ! p) = AtDefer \<and>
               sigKills (r_ps (w_replicas w3 ! p)) = 1) \<and>
            (step (SelFinished2 p) w = Some w2 \<and> reachable w2 w3 \<longrightarrow>
               w_out w2 = w_out w \<and> r_coord (w_replicas w2 ! p) = AtDefer \<and>
               sigKills (r_ps (w_replicas w3 ! p)) = 0)"
    if g: "r_coord ?r = AtGrace deadline"
  proof -
    from g have "r_coord ?r \<noteq> CoordDone" by simp
    with i assms(3) have run: "\<not> w_panicked w" "w_main w \<noteq> Returned"
      by (simp_all add: inv_active_running)
    note st = step_replica [OF run assms(3)]
    from ok g have sig: "sigTerms (r_ps ?r) = 1" "sigKills (r_ps ?r) = 0"
      unfolding replicaOk_def isGrace_def by (elim conjE, simp)+
    have en: "step (SelTimer p) w \<noteq> None \<longleftrightarrow> deadline \<le> w_now w"
      "step (SelTeardownNow p) w \<noteq> None \<longleftrightarrow> teardownNow (w_f w) = Closed"
      "step (SelFinished2 p) w \<noteq> None \<longleftrightarrow> r_finished ?r = Closed"
      "step (SelFinished p) w = None" "step (SelTeardown p) w = None" "step (Complete p) w = None"
      using g
      by (simp_all add: st selTimer_def selTeardownNow_def selFinished2_def selFinished_def
          selTeardown_def complete_def Let_def)
    have kill: "w_out w2 = w_out w @ [SystemOutput (''Killing '' @ r_procName ?r)] \<and>
               r_coord (w_replicas w2 ! p) = AtDefer \<and> sigKills (r_ps (w_replicas w3 ! p)) = 1"
      if s: "step (SelTimer p) w = Some w2 \<or> step (SelTeardownNow p) w = Some w2"
        and r: "reachable w2 w3"
    proof -
      from s g have w2: "w2 = forceKill p w"
        by (auto simp: st selTimer_def selTeardownNow_def split: if_splits)
      with assms(3) sig have 1: "r_coord (w_replicas w2 ! p) = AtDefer"
        "sigKills (r_ps (w_replicas w2 ! p)) = 1" "p < length (w_replicas w2)"
        by (simp_all add: SendSigKill_def)
      from reachable_signals_final [OF r 1(3)] 1
      have "sigKills (r_ps (w_replicas w3 ! p)) = 1" by simp
      with 1 w2 show ?thesis by simp
    qed
    have quiet: "w_out w2 = w_out w \<and> r_coord (w_replicas w2 ! p) = AtDefer \<and>
        sigKills (r_ps (w_replicas w3 ! p)) = 0"
      if s: "step (SelFinished2 p) w = Some w2" and r: "reachable w2 w3"
    proof -
      from s g have w2: "w2 = updReplica p (\<lambda>r. r\<lparr>r_coord := AtDefer\<rparr>) w"
        by (auto simp: st selFinished2_def split: if_splits)
      with assms(3) sig have 1: "r_coord (w_replicas w2 ! p) = AtDefer"
        "sigKills (r_ps (w_replicas w2 ! p)) = 0" "p < length (w_replicas w2)"
        by simp_all
      from reachable_signals_final [OF r 1(3)] 1
      have "sigKills (r_ps (w_replicas w3 ! p)) = 0" by simp
      with 1 w2 show ?thesis by simp
    qed
    from sig en kill quiet show ?thesis by (intro conjI impI; (elim conjE)?; simp)
  qed
  have D: "teardownNow (w_f w4) = Closed" if "step Interrupt w = Some w4" "\<not> w_first w"
  proof -
    from that(1) have "w4 = monitorInterrupt w" by (auto simp: step_def split: if_splits)
    moreover from i have "monitorInterrupt w =
       w\<lparr>w_out := w_out w @ [Println ''      | ctrl-c detected''],
         w_once := (w_once w \<or> \<not> w_first w),
         w_f := (w_f w)\<lparr>shutdown := True, teardown := Closed,
                      teardownNow := (if w_first w then teardownNow (w_f w) else Closed)\<rparr>,
         w_first := False\<rparr>"
      by (intro monitorInterrupt_eq) (simp_all add: inv_def)
    ultimately show ?thesis using that(2) by simp
  qed
  from A B D show ?thesis by (intro conjI impI; (elim conjE)?; simp)
qed

definition demoGrace :: "event list" where
  \<comment> \<open>after \<open>demoTrip\<close>, web.1 is sent SIGTERM and 3 seconds pass\<close>
  "demoGrace =
     [MainStart, MainStart, MainStart, ChildExit 1, WaitReturn 1, CloseFinished 1, SelFinished 1,
      SelTeardown 0, Tick 3000000000]"

definition demoQuiet :: "event list" where
  \<comment> \<open>after \<open>demoTrip\<close>, worker.1 is sent SIGTERM, exits and is reaped\<close>
  "demoQuiet =
     [MainStart, MainStart, MainStart, ChildExit 1, WaitReturn 1, CloseFinished 1, SelFinished 1,
      SelTeardown 2, ChildExit 2, WaitReturn 2, CloseFinished 2]"

lemma demoGrace_exec:
  "map_option
     (\<lambda>w. (w_main w, w_f w, w_panicked w, w_now w, length (w_replicas w),
           r_coord (w_replicas w ! 0), r_finished (w_replicas w ! 0),
           sigTerms (r_ps (w_replicas w ! 0)), sigKills (r_ps (w_replicas w ! 0))))
     (exec demoGrace (demoWorld False)) =
   Some (Fanout [], \<lparr>shutdown = True, teardown = Closed, teardownNow = Open, wg = 3\<rparr>, False,
     3000000000, 3, AtGrace 3000000000, Open, 1, 0)"
  by (simp add: demoGrace_def eval_step)

lemma demoQuiet_exec:
  "map_option
     (\<lambda>w. (w_main w, w_f w, w_panicked w, w_now w, length (w_replicas w),
           r_coord (w_replicas w ! 2), r_finished (w_replicas w ! 2),
           sigTerms (r_ps (w_replicas w ! 2)), sigKills (r_ps (w_replicas w ! 2))))
     (exec demoQuiet (demoWorld False)) =
   Some (Fanout [], \<lparr>shutdown = True, teardown = Closed, teardownNow = Open, wg = 3\<rparr>, False,
     0, 3, AtGrace 3000000000, Closed, 1, 0)"
  by (simp add: demoQuiet_def eval_step)

lemma demoGrace_reachable: "reachable (demoWorld False) (the (exec demoGrace (demoWorld False)))"
  using demoGrace_exec by (intro reachable_the) auto

lemma demoQuiet_reachable: "reachable (demoWorld False) (the (exec demoQuiet (demoWorld False)))"
  using demoQuiet_exec by (intro reachable_the) auto

lemma demoWorld_inv: "reachable (demoWorld False) w \<Longrightarrow> inv w"
  unfolding demoWorld_def by (rule reachable_inv)

lemma demoWorld_flags:
  assumes "reachable (demoWorld restart) w"
  shows "w_flags w = demoFlags ''web=2,worker=1'' restart"
proof -
  from assms have "fanInv (demoFlags ''web=2,worker=1'' restart) Map.empty
      [Call 0 0 \<lparr>Name = ''web'', Command = ''run web''\<rparr>,
       Call 0 1 \<lparr>Name = ''web'', Command = ''run web''\<rparr>,
       Call 1 0 \<lparr>Name = ''worker'', Command = ''run worker''\<rparr>] w"
    unfolding demoWorld_def by (rule reachable_fanInv)
  then show ?thesis unfolding fanInv_def by (elim conjE)
qed

lemma monitorInterrupt_not_first:
  assumes "inv w"
  shows "\<not> w_first (monitorInterrupt w)"
proof -
  from assms have e: "monitorInterrupt w =
       w\<lparr>w_out := w_out w @ [Println ''      | ctrl-c detected''],
         w_once := (w_once w \<or> \<not> w_first w),
         w_f := (w_f w)\<lparr>shutdown := True, teardown := Closed,
                      teardownNow := (if w_first w then teardownNow (w_f w) else Closed)\<rparr>,
         w_first := False\<rparr>"
    by (intro monitorInterrupt_eq) (simp_all add: inv_def)
  show ?thesis by (subst e) simp
qed

theorem grace_period_kill_once_witness:
  "runStart (demoFlags ''web=2,worker=1'' False) (demoProcfile, None) (Map.empty, None) 0 [] =
     Started (demoWorld False) \<and>
   osHaveSigTerm (demoFlags ''web=2,worker=1'' False) \<and>
   exec demoTrip (demoWorld False) \<noteq> None \<and>
   step (SelTeardown 0) (the (exec demoTrip (demoWorld False))) \<noteq> None \<and>
   r_coord (w_replicas (the (step (SelTeardown 0) (the (exec demoTrip (demoWorld False))))) ! 0)
     = AtGrace 3000000000 \<and>
   exec demoGrace (demoWorld False) \<noteq> None \<and>
   r_coord (w_replicas (the (exec demoGrace (demoWorld False))) ! 0) = AtGrace 3000000000 \<and>
   w_now (the (exec demoGrace (demoWorld False))) = 3000000000 \<and>
   step (SelTimer 0) (the (exec demoGrace (demoWorld False))) =
     Some (forceKill 0 (the (exec demoGrace (demoWorld False)))) \<and>
   sigKills (r_ps (w_replicas (the (exec demoGrace (demoWorld False))) ! 0)) = 0 \<and>
   sigKills (r_ps (w_replicas (forceKill 0 (the (exec demoGrace (demoWorld False)))) ! 0)) = 1 \<and>
   step (SelTeardownNow 0) (the (exec demoGrace (demoWorld False))) = None \<and>
   exec demoQuiet (demoWorld False) \<noteq> None \<and>
   step (SelFinished2 2) (the (exec demoQuiet (demoWorld False))) \<noteq> None \<and>
   sigKills (r_ps (w_replicas
     (the (step (SelFinished2 2) (the (exec demoQuiet (demoWorld False))))) ! 2)) = 0 \<and>
   \<not> w_first (monitorInterrupt (the (exec demoTrip (demoWorld False)))) \<and>
   step Interrupt (monitorInterrupt (the (exec demoTrip (demoWorld False)))) =
     Some (monitorInterrupt (monitorInterrupt (the (exec demoTrip (demoWorld False))))) \<and>
   teardownNow (w_f (monitorInterrupt (monitorInterrupt (the (exec demoTrip (demoWorld False))))))
     = Closed"
proof -
  let ?wt = "the (exec demoTrip (demoWorld False))"
  let ?wg = "the (exec demoGrace (demoWorld False))"
  let ?wq = "the (exec demoQuiet (demoWorld False))"
  let ?wi = "monitorInterrupt ?wt"
  note claim = grace_period_kill_once [OF runStart_demo]
  have fl: "osHaveSigTerm (demoFlags ''web=2,worker=1'' False)" by (simp add: demoFlags_def)
  \<comment> \<open>the teardown case\<close>
  from demoTrip_exec have net: "exec demoTrip (demoWorld False) \<noteq> None" by auto
  from demoTrip_exec demoTrip_Some
  have t: "\<not> w_panicked ?wt" "w_main ?wt \<noteq> Returned" "teardown (w_f ?wt) = Closed" "w_now ?wt = 0"
    and trs: "map (\<lambda>r. r_coord r) (w_replicas ?wt) = [AtSelect, AtDefer, AtSelect]"
    by auto
  from trs have tl: "0 < length (w_replicas ?wt)" by (auto dest: arg_cong [where f = length])
  from nth_map_eq [OF trs, of 0] have tc: "r_coord (w_replicas ?wt ! 0) = AtSelect" by simp
  have "w_flags ?wt = demoFlags ''web=2,worker=1'' False"
    using demoTrip_reachable by (rule demoWorld_flags)
  with fl t tl tc have "step (SelTeardown 0) ?wt \<noteq> None"
    by (simp add: step_def selTeardown_def)
  then obtain w1 where s1: "step (SelTeardown 0) ?wt = Some w1" by auto
  from claim [OF demoTrip_reachable tl, where ?w1.0 = w1] fl s1 t(4)
  have a: "r_coord (w_replicas w1 ! 0) = AtGrace 3000000000" by simp
  \<comment> \<open>the timer case\<close>
  from demoGrace_exec have neg: "exec demoGrace (demoWorld False) \<noteq> None" by auto
  then have gs: "exec demoGrace (demoWorld False) = Some ?wg" by auto
  from demoGrace_exec gs
  have g: "\<not> w_panicked ?wg" "w_main ?wg \<noteq> Returned" "teardownNow (w_f ?wg) = Open"
    "w_now ?wg = 3000000000" "length (w_replicas ?wg) = 3"
    "r_coord (w_replicas ?wg ! 0) = AtGrace 3000000000"
    by auto
  then have gl: "0 < length (w_replicas ?wg)" by simp
  from g gl have s2: "step (SelTimer 0) ?wg = Some (forceKill 0 ?wg)"
    by (simp add: step_def selTimer_def)
  from claim [OF demoGrace_reachable gl, where deadline = 3000000000 and ?w2.0 = "forceKill 0 ?wg"
      and ?w3.0 = "forceKill 0 ?wg"] g(6) s2 reachable_refl g(3)
  have b: "sigKills (r_ps (w_replicas ?wg ! 0)) = 0"
    "sigKills (r_ps (w_replicas (forceKill 0 ?wg) ! 0)) = 1"
    "step (SelTeardownNow 0) ?wg = None"
    by auto
  \<comment> \<open>the finished case\<close>
  from demoQuiet_exec have neq: "exec demoQuiet (demoWorld False) \<noteq> None" by auto
  then have qs: "exec demoQuiet (demoWorld False) = Some ?wq" by auto
  from demoQuiet_exec qs
  have q: "\<not> w_panicked ?wq" "w_main ?wq \<noteq> Returned" "length (w_replicas ?wq) = 3"
    "r_coord (w_replicas ?wq ! 2) = AtGrace 3000000000" "r_finished (w_replicas ?wq ! 2) = Closed"
    by auto
  then have ql: "2 < length (w_replicas ?wq)" by simp
  from q ql have "step (SelFinished2 2) ?wq \<noteq> None"
    by (simp add: step_def selFinished2_def)
  then obtain w2 where s3: "step (SelFinished2 2) ?wq = Some w2" by auto
  from claim [OF demoQuiet_reachable ql, where deadline = 3000000000 and ?w2.0 = w2 and ?w3.0 = w2]
    q(4) s3 reachable_refl
  have c: "sigKills (r_ps (w_replicas w2 ! 2)) = 0" by auto
  \<comment> \<open>the second interrupt\<close>
  from t have si: "step Interrupt ?wt = Some ?wi" by (simp add: step_Interrupt)
  then have ri: "reachable (demoWorld False) ?wi" by (rule reachable_step [OF demoTrip_reachable])
  from demoWorld_inv [OF demoTrip_reachable] have nf: "\<not> w_first ?wi"
    by (rule monitorInterrupt_not_first)
  from demoWorld_inv [OF ri] t(2) have "\<not> w_panicked ?wi" "w_main ?wi \<noteq> Returned"
    by (simp_all add: inv_not_panicked)
  then have s4: "step Interrupt ?wi = Some (monitorInterrupt ?wi)" by (rule step_Interrupt)
  from demoWorld_inv [OF ri] have "0 < length (w_replicas ?wi)" using tl by simp
  from claim [OF ri this, where ?w4.0 = "monitorInterrupt ?wi"] s4 nf
  have d: "teardownNow (w_f (monitorInterrupt ?wi)) = Closed" by simp
  from runStart_demo [of False] fl net s1 a neg g(6,4) s2 b neq s3 c nf s4 d
  show ?thesis by simp
qed

subsection \<open>Restarting a replica\<close>

definition fresh :: "replica \<Rightarrow> bool" where
  \<comment> \<open>just started: the child runs, both goroutines are at their first wait\<close>
  "fresh r =
     (psChild (r_ps r) = Alive \<and> r_waiter r = Waiting \<and> r_finished r = Open \<and>
      r_coord r = AtSelect)"

definition sameKey :: "replica \<Rightarrow> replica \<Rightarrow> bool" where
  "sameKey r r' =
     (r_idx r = r_idx r' \<and> r_procNum r = r_procNum r' \<and> r_proc r = r_proc r')"

lemma keyOk_sameKey:
  assumes "keyOk fl env calls r" "keyOk fl env calls r'" "sameKey r r'"
  shows "r_procName r = r_procName r' \<and> r_port r = r_port r' \<and>
         psEnv (r_ps r) = psEnv (r_ps r') \<and> psCommand (r_ps r) = psCommand (r_ps r')"
  using assms unfolding keyOk_def sameKey_def by (elim conjE) simp

lemma restart_step:
  assumes "\<not> w_panicked w" "w_main w \<noteq> Returned" "flagRestart (w_flags w)"
    and "p < length (w_replicas w)"
    and "r_coord (w_replicas w ! p) = AtSelect" "r_finished (w_replicas w ! p) = Closed"
  shows "\<exists>w'. step (SelFinished p) w = Some w' \<and>
           length (w_replicas w') = Suc (length (w_replicas w)) \<and>
           fresh (w_replicas w' ! length (w_replicas w)) \<and>
           sameKey (w_replicas w' ! length (w_replicas w)) (w_replicas w ! p) \<and>
           r_parent (w_replicas w' ! length (w_replicas w)) = Some p \<and>
           sigTerms (r_ps (w_replicas w' ! length (w_replicas w))) = 0 \<and>
           sigKills (r_ps (w_replicas w' ! length (w_replicas w))) = 0 \<and>
           w_replicas w' ! p = (w_replicas w ! p)\<lparr>r_coord := AtDefer\<rparr> \<and>
           (\<forall>q < length (w_replicas w). q \<noteq> p \<longrightarrow> w_replicas w' ! q = w_replicas w ! q) \<and>
           w_f w' = (w_f w)\<lparr>wg := wg (w_f w) + 1\<rparr> \<and>
           w_out w' = w_out w @ [startLine (w_replicas w' ! length (w_replicas w))] \<and>
           w_main w' = w_main w \<and> w_flags w' = w_flags w \<and> \<not> w_panicked w'"
proof -
  let ?r = "w_replicas w ! p"
  let ?w' = "updReplica p (\<lambda>r. r\<lparr>r_coord := AtDefer\<rparr>)
      (startProcess (r_idx ?r) (r_procNum ?r) (r_proc ?r) (Some p) w)"
  from assms have "step (SelFinished p) w = Some ?w'"
    by (simp add: step_def selFinished_def Let_def)
  moreover from assms(4) have "length (w_replicas ?w') = Suc (length (w_replicas w))" by simp
  moreover from assms(4)
  have n: "w_replicas ?w' ! length (w_replicas w) =
      newReplica (w_flags w) (w_env w) (r_idx ?r) (r_procNum ?r) (r_proc ?r) (Some p)"
    by (simp add: nth_list_update nth_append)
  moreover from assms(4) have "w_replicas ?w' ! p = ?r\<lparr>r_coord := AtDefer\<rparr>"
    by (simp add: nth_list_update nth_append)
  moreover from assms(4)
  have "\<forall>q < length (w_replicas w). q \<noteq> p \<longrightarrow> w_replicas ?w' ! q = w_replicas w ! q"
    by (simp add: nth_list_update nth_append)
  moreover have "w_f ?w' = (w_f w)\<lparr>wg := wg (w_f w) + 1\<rparr>" "w_main ?w' = w_main w"
    "w_flags ?w' = w_flags w"
    by simp_all
  moreover have "w_out ?w' = w_out w @ [startLine (w_replicas ?w' ! length (w_replicas w))]"
    by (simp only: n) (simp add: startProcess_eq startLine_def)
  moreover from assms(1) have "\<not> w_panicked ?w'" by simp
  ultimately show ?thesis by (simp add: fresh_def sameKey_def)
qed

text \<open>
  One round of a crash loop: the child of the fresh replica \<open>m\<close> exits, is reaped,
  its coordinator restarts it and completes.
\<close>

definition cycle :: "nat \<Rightarrow> event list" where
  "cycle m = [ChildExit m, WaitReturn m, CloseFinished m, SelFinished m, Complete m]"

lemma restart_cycle:
  assumes "inv w" "w_main w \<noteq> Returned" "flagRestart (w_flags w)"
    and "m < length (w_replicas w)" "fresh (w_replicas w ! m)"
  shows "\<exists>w'. exec (cycle m) w = Some w' \<and>
           length (w_replicas w') = Suc (length (w_replicas w)) \<and>
           fresh (w_replicas w' ! length (w_replicas w)) \<and>
           sameKey (w_replicas w' ! length (w_replicas w)) (w_replicas w ! m) \<and>
           (\<forall>q < length (w_replicas w). q \<noteq> m \<longrightarrow> w_replicas w' ! q = w_replicas w ! q) \<and>
           teardown (w_f w') = teardown (w_f w) \<and>
           w_main w' = w_main w \<and> w_flags w' = w_flags w"
proof -
  let ?r = "w_replicas w ! m"
  from assms(1) have np: "\<not> w_panicked w" by (rule inv_not_panicked)
  from assms(5) have f: "psChild (r_ps ?r) = Alive" "r_waiter ?r = Waiting" "r_finished ?r = Open"
    "r_coord ?r = AtSelect"
    by (simp_all add: fresh_def)
  \<comment> \<open>the child exits\<close>
  let ?w1 = "updReplica m (\<lambda>r. r\<lparr>r_ps := (r_ps r)\<lparr>psChild := Exited\<rparr>\<rparr>) w"
  from np assms(2,4) f have s1: "step (ChildExit m) w = Some ?w1"
    by (simp add: step_def onReplica_def childExit_def updReplica_def)
  \<comment> \<open>\<open>ps.Wait()\<close> returns\<close>
  let ?w2 = "updReplica m (\<lambda>r. r\<lparr>r_ps := (r_ps r)\<lparr>psChild := Reaped\<rparr>, r_waiter := Closing\<rparr>) ?w1"
  from np assms(2,4) f have s2: "step (WaitReturn m) ?w1 = Some ?w2"
    by (simp add: step_def onReplica_def waitReturn_def updReplica_def)
  \<comment> \<open>\<open>finished\<close> is closed\<close>
  let ?w3 = "updReplica m (\<lambda>r. r\<lparr>r_finished := Closed, r_waiter := WaiterDone\<rparr>) ?w2"
  from np assms(2,4) f have s3: "step (CloseFinished m) ?w2 = Some ?w3"
    by (simp add: step_def closeFinished_def close_chan_def Let_def)
  \<comment> \<open>the coordinator restarts the replica\<close>
  from np assms(2,3,4) f
  have pre: "\<not> w_panicked ?w3" "w_main ?w3 \<noteq> Returned" "flagRestart (w_flags ?w3)"
    "m < length (w_replicas ?w3)" "r_coord (w_replicas ?w3 ! m) = AtSelect"
    "r_finished (w_replicas ?w3 ! m) = Closed"
    by simp_all
  from restart_step [OF pre] obtain w4 where s4: "step (SelFinished m) ?w3 = Some w4"
    and l4: "length (w_replicas w4) = Suc (length (w_replicas ?w3))"
    and n4: "fresh (w_replicas w4 ! length (w_replicas ?w3))"
      "sameKey (w_replicas w4 ! length (w_replicas ?w3)) (w_replicas ?w3 ! m)"
    and m4: "w_replicas w4 ! m = (w_replicas ?w3 ! m)\<lparr>r_coord := AtDefer\<rparr>"
    and o4: "\<forall>q < length (w_replicas ?w3). q \<noteq> m \<longrightarrow> w_replicas w4 ! q = w_replicas ?w3 ! q"
    and f4: "w_f w4 = (w_f ?w3)\<lparr>wg := wg (w_f ?w3) + 1\<rparr>"
    and r4: "w_main w4 = w_main ?w3" "w_flags w4 = w_flags ?w3" "\<not> w_panicked w4"
    by blast
  \<comment> \<open>and completes\<close>
  from assms(1) have "0 \<le> wg (w_f w)" unfolding inv_def by (elim conjE) simp
  with f4 have wg4: "0 < wg (w_f w4)" by simp
  let ?w5 = "updReplica m (\<lambda>r. r\<lparr>r_coord := CoordDone\<rparr>) (w4\<lparr>w_f := (w_f w4)\<lparr>wg := wg (w_f w4) - 1\<rparr>\<rparr>)"
  from l4 assms(4) have m4l: "m < length (w_replicas w4)" by simp
  from m4 assms(4) have c4: "r_coord (w_replicas w4 ! m) = AtDefer"
    "r_finished (w_replicas w4 ! m) = Closed"
    by simp_all
  from m4l r4 assms(2) c4 wg4 have s5: "step (Complete m) w4 = Some ?w5"
    by (simp add: step_def complete_def Let_def)
  from s1 s2 s3 s4 s5 have "exec (cycle m) w = Some ?w5" by (simp add: cycle_def)
  moreover from l4 have "length (w_replicas ?w5) = Suc (length (w_replicas w))" by simp
  moreover from n4 assms(4) l4 have "fresh (w_replicas ?w5 ! length (w_replicas w))"
    by (simp add: nth_list_update)
  moreover from n4 assms(4) l4
  have "sameKey (w_replicas ?w5 ! length (w_replicas w)) (w_replicas w ! m)"
    by (simp add: nth_list_update sameKey_def)
  moreover from o4
  have "\<forall>q < length (w_replicas w). q \<noteq> m \<longrightarrow> w_replicas ?w5 ! q = w_replicas w ! q"
    by (simp add: nth_list_update)
  moreover from f4 have "teardown (w_f ?w5) = teardown (w_f w)" by simp
  moreover from r4 have "w_main ?w5 = w_main w" "w_flags ?w5 = w_flags w" by simp_all
  ultimately show ?thesis by blast
qed

lemma inv_exec: "inv w \<Longrightarrow> exec es w = Some w' \<Longrightarrow> inv w'"
  by (erule exec_invariant [where P = inv, rotated]) (simp_all add: inv_step)

lemma sameKey_trans: "sameKey a b \<Longrightarrow> sameKey b c \<Longrightarrow> sameKey a c"
  by (simp add: sameKey_def)

lemma crash_loop:
  assumes "inv w" "w_main w \<noteq> Returned" "flagRestart (w_flags w)"
    and "m < length (w_replicas w)" "fresh (w_replicas w ! m)"
  shows "\<exists>es w' m'. exec es w = Some w' \<and>
           length (w_replicas w') = length (w_replicas w) + n \<and>
           m' < length (w_replicas w') \<and> (m' = m \<or> length (w_replicas w) \<le> m') \<and>
           fresh (w_replicas w' ! m') \<and> sameKey (w_replicas w' ! m') (w_replicas w ! m) \<and>
           (\<forall>q < length (w_replicas w). q \<noteq> m \<longrightarrow> w_replicas w' ! q = w_replicas w ! q) \<and>
           teardown (w_f w') = teardown (w_f w) \<and>
           w_main w' = w_main w \<and> w_flags w' = w_flags w"
proof (induction n)
  case 0
  have "exec [] w = Some w" by simp
  with assms(4,5) show ?case unfolding sameKey_def by fastforce
next
  case (Suc n)
  then obtain es w' m' where e: "exec es w = Some w'"
    and l: "length (w_replicas w') = length (w_replicas w) + n"
    and m': "m' < length (w_replicas w')" "m' = m \<or> length (w_replicas w) \<le> m'"
    and f: "fresh (w_replicas w' ! m')" and k: "sameKey (w_replicas w' ! m') (w_replicas w ! m)"
    and o: "\<forall>q < length (w_replicas w). q \<noteq> m \<longrightarrow> w_replicas w' ! q = w_replicas w ! q"
    and t: "teardown (w_f w') = teardown (w_f w)"
    and r: "w_main w' = w_main w" "w_flags w' = w_flags w"
    by blast
  from assms(1) e have i': "inv w'" by (rule inv_exec)
  from r assms(2,3) have "w_main w' \<noteq> Returned" "flagRestart (w_flags w')" by simp_all
  from restart_cycle [OF i' this m'(1) f] obtain w''
    where e': "exec (cycle m') w' = Some w''"
      and l': "length (w_replicas w'') = Suc (length (w_replicas w'))"
      and f': "fresh (w_replicas w'' ! length (w_replicas w'))"
      and k': "sameKey (w_replicas w'' ! length (w_replicas w')) (w_replicas w' ! m')"
      and o': "\<forall>q < length (w_replicas w'). q \<noteq> m' \<longrightarrow> w_replicas w'' ! q = w_replicas w' ! q"
      and t': "teardown (w_f w'') = teardown (w_f w')"
      and r': "w_main w'' = w_main w'" "w_flags w'' = w_flags w'"
    by blast
  from e e' have 1: "exec (es @ cycle m') w = Some w''" by (simp add: exec_append)
  from l l' have 2: "length (w_replicas w'') = length (w_replicas w) + Suc n" by simp
  from l' have 3: "length (w_replicas w') < length (w_replicas w'')" by simp
  from l have 4: "length (w_replicas w) \<le> length (w_replicas w')" by simp
  from k' k have 5: "sameKey (w_replicas w'' ! length (w_replicas w')) (w_replicas w ! m)"
    by (rule sameKey_trans)
  have 6: "\<forall>q < length (w_replicas w). q \<noteq> m \<longrightarrow> w_replicas w'' ! q = w_replicas w ! q"
  proof (intro allI impI)
    fix q
    assume q: "q < length (w_replicas w)" "q \<noteq> m"
    with m'(2) have "q \<noteq> m'" by auto
    moreover from q l have "q < length (w_replicas w')" by simp
    ultimately have "w_replicas w'' ! q = w_replicas w' ! q" using o' by simp
    with o q show "w_replicas w'' ! q = w_replicas w ! q" by simp
  qed
  from t t' r r' have 7: "teardown (w_f w'') = teardown (w_f w)" "w_main w'' = w_main w"
    "w_flags w'' = w_flags w"
    by simp_all
  from 1 2 3 4 f' 5 6 7 show ?case by blast
qed

definition restarted :: "world \<Rightarrow> world \<Rightarrow> nat \<Rightarrow> nat \<Rightarrow> bool" where
  \<comment> \<open>in \<open>w'\<close> a fresh replica stands at \<open>m\<close> for the key, name and port of replica \<open>p\<close> of
    \<open>w\<close>, the barrier is as it was and the other replicas of \<open>w\<close> are as they were\<close>
  "restarted w w' p m =
     (m < length (w_replicas w') \<and> fresh (w_replicas w' ! m) \<and>
      sameKey (w_replicas w' ! m) (w_replicas w ! p) \<and>
      r_procName (w_replicas w' ! m) = r_procName (w_replicas w ! p) \<and>
      r_port (w_replicas w' ! m) = r_port (w_replicas w ! p) \<and>
      psEnv (r_ps (w_replicas w' ! m)) = psEnv (r_ps (w_replicas w ! p)) \<and>
      psCommand (r_ps (w_replicas w' ! m)) = psCommand (r_ps (w_replicas w ! p)) \<and>
      teardown (w_f w') = teardown (w_f w) \<and>
      (\<forall>q < length (w_replicas w). q \<noteq> p \<longrightarrow> w_replicas w' ! q = w_replicas w ! q))"

text \<open>
  C5: with the restart flag, the coordinator that takes the \<open>finished\<close> case of its outer
  select calls \<open>startProcess\<close> for its own key in that step. The step adds one replica,
  just started, with the key, display name, port and environment of the old one, and
  prints its start line; the old coordinator goes on to its deferred wait; no other
  replica changes and the barriers are not touched. The same can happen to the new
  replica, any number \<open>n\<close> of times, with the same result.
\<close>

theorem exit_with_restart_relaunches:
  assumes "runStart fl pf env t args = Started w0" and "reachable w0 w" and "flagRestart fl"
    and "p < length (w_replicas w)"
    and "r_coord (w_replicas w ! p) = AtSelect" and "r_finished (w_replicas w ! p) = Closed"
  shows "\<exists>w'. step (SelFinished p) w = Some w' \<and>
           length (w_replicas w') = Suc (length (w_replicas w)) \<and>
           restarted w w' p (length (w_replicas w)) \<and>
           r_parent (w_replicas w' ! length (w_replicas w)) = Some p \<and>
           w_out w' = w_out w @ [startLine (w_replicas w' ! length (w_replicas w))] \<and>
           w_replicas w' ! p = (w_replicas w ! p)\<lparr>r_coord := AtDefer\<rparr> \<and>
           teardownNow (w_f w') = teardownNow (w_f w) \<and> \<not> w_panicked w' \<and>
           (\<exists>es w'' m. exec es w' = Some w'' \<and>
              length (w_replicas w'') = length (w_replicas w') + n \<and> restarted w w'' p m)"
proof -
  from assms(1) obtain concurrency
    where w0: "w0 = firstWorld fl (fst env) (outerLoop concurrency (theSingleton args) 0 (fst pf)) t"
    by (rule runStart_Started)
  let ?calls = "outerLoop concurrency (theSingleton args) 0 (fst pf)"
  let ?r = "w_replicas w ! p"
  let ?l = "length (w_replicas w)"
  from assms(2) have i: "inv w" unfolding w0 by (rule reachable_inv)
  from assms(2) have fan: "fanInv fl (fst env) ?calls w" unfolding w0 by (rule reachable_fanInv)
  then have fl: "w_flags w = fl" by (simp add: fanInv_def)
  from fan assms(4) have kr: "keyOk fl (fst env) ?calls ?r" by (simp add: fanInv_def list_all_nth)
  from assms(5) have "r_coord ?r \<noteq> CoordDone" by simp
  with i assms(4) have run: "\<not> w_panicked w" "w_main w \<noteq> Returned"
    by (simp_all add: inv_active_running)
  from assms(3) fl have "flagRestart (w_flags w)" by simp
  from restart_step [OF run this assms(4,5,6)] obtain w'
    where s: "step (SelFinished p) w = Some w'"
      and l: "length (w_replicas w') = Suc ?l"
      and f: "fresh (w_replicas w' ! ?l)" and k: "sameKey (w_replicas w' ! ?l) ?r"
      and pa: "r_parent (w_replicas w' ! ?l) = Some p"
      and old: "w_replicas w' ! p = ?r\<lparr>r_coord := AtDefer\<rparr>"
      and o: "\<forall>q < ?l. q \<noteq> p \<longrightarrow> w_replicas w' ! q = w_replicas w ! q"
      and wf: "w_f w' = (w_f w)\<lparr>wg := wg (w_f w) + 1\<rparr>"
      and out: "w_out w' = w_out w @ [startLine (w_replicas w' ! ?l)]"
      and r: "w_main w' = w_main w" "w_flags w' = w_flags w" "\<not> w_panicked w'"
    by blast
  from assms(2) s have re': "reachable w0 w'" by (rule reachable_step)
  then have i': "inv w'" and fan': "fanInv fl (fst env) ?calls w'"
    unfolding w0 by (rule reachable_inv, rule reachable_fanInv)
  from fan' l have "keyOk fl (fst env) ?calls (w_replicas w' ! ?l)"
    by (simp add: fanInv_def list_all_nth)
  from keyOk_sameKey [OF this kr k] f k l wf o
  have 1: "restarted w w' p ?l" by (simp add: restarted_def)
  from r run fl assms(3) have run': "w_main w' \<noteq> Returned" "flagRestart (w_flags w')"
    by simp_all
  from l have lt: "?l < length (w_replicas w')" by simp
  from crash_loop [OF i' run' lt f, of n] obtain es w'' m
    where e: "exec es w' = Some w''"
      and l'': "length (w_replicas w'') = length (w_replicas w') + n"
      and m: "m < length (w_replicas w'')" "m = ?l \<or> length (w_replicas w') \<le> m"
      and f'': "fresh (w_replicas w'' ! m)"
      and k'': "sameKey (w_replicas w'' ! m) (w_replicas w' ! ?l)"
      and o'': "\<forall>q < length (w_replicas w'). q \<noteq> ?l \<longrightarrow> w_replicas w'' ! q = w_replicas w' ! q"
      and t'': "teardown (w_f w'') = teardown (w_f w')"
    by blast
  from e have "reachable w' w''" by (auto simp: reachable_def)
  with re' have "reachable w0 w''" by (rule reachable_trans)
  then have "fanInv fl (fst env) ?calls w''" unfolding w0 by (rule reachable_fanInv)
  with m(1) have km: "keyOk fl (fst env) ?calls (w_replicas w'' ! m)"
    by (simp add: fanInv_def list_all_nth)
  from k'' k have kk: "sameKey (w_replicas w'' ! m) ?r" by (rule sameKey_trans)
  have oo: "\<forall>q < ?l. q \<noteq> p \<longrightarrow> w_replicas w'' ! q = w_replicas w ! q"
  proof (intro allI impI)
    fix q
    assume q: "q < ?l" "q \<noteq> p"
    with l have "q < length (w_replicas w')" "q \<noteq> ?l" by simp_all
    with o'' have "w_replicas w'' ! q = w_replicas w' ! q" by simp
    with o q show "w_replicas w'' ! q = w_replicas w ! q" by simp
  qed
  from keyOk_sameKey [OF km kr kk] m(1) f'' kk t'' wf oo
  have 2: "restarted w w'' p m" by (simp add: restarted_def)
  from wf have 3: "teardownNow (w_f w') = teardownNow (w_f w)" by simp
  from s l 1 pa out old 3 r(3) e l'' 2 show ?thesis by blast
qed

lemma demoExit_restart_exec:
  "map_option
     (\<lambda>w. map (\<lambda>r. (r_procName r, r_port r, r_coord r, r_finished r, psChild (r_ps r), r_parent r))
            (w_replicas w))
     (exec (demoExit @ [SelFinished 1]) (demoWorld True)) =
   Some [(''web.1'', 5000, AtSelect, Open, Alive, None),
         (''web.2'', 5000, AtDefer, Closed, Reaped, None),
         (''worker.1'', 5100, AtSelect, Open, Alive, None),
         (''web.2'', 5000, AtSelect, Open, Alive, Some 1)]"
  unfolding demoExit_def append.simps by (simp add: eval_step)

theorem exit_with_restart_relaunches_witness:
  "runStart (demoFlags ''web=2,worker=1'' True) (demoProcfile, None) (Map.empty, None) 0 [] =
     Started (demoWorld True) \<and>
   flagRestart (demoFlags ''web=2,worker=1'' True) \<and>
   exec demoExit (demoWorld True) \<noteq> None \<and>
   length (w_replicas (the (exec demoExit (demoWorld True)))) = 3 \<and>
   r_coord (w_replicas (the (exec demoExit (demoWorld True))) ! 1) = AtSelect \<and>
   r_finished (w_replicas (the (exec demoExit (demoWorld True))) ! 1) = Closed \<and>
   r_procName (w_replicas (the (exec demoExit (demoWorld True))) ! 1) = ''web.2'' \<and>
   step (SelFinished 1) (the (exec demoExit (demoWorld True))) \<noteq> None \<and>
   length (w_replicas (the (step (SelFinished 1) (the (exec demoExit (demoWorld True)))))) = 4 \<and>
   r_procName (w_replicas (the (step (SelFinished 1) (the (exec demoExit (demoWorld True))))) ! 3)
     = ''web.2'' \<and>
   r_port (w_replicas (the (step (SelFinished 1) (the (exec demoExit (demoWorld True))))) ! 3)
     = 5000 \<and>
   teardown (w_f (the (step (SelFinished 1) (the (exec demoExit (demoWorld True)))))) = Open \<and>
   w_replicas (the (step (SelFinished 1) (the (exec demoExit (demoWorld True))))) ! 0 =
     w_replicas (the (exec demoExit (demoWorld True))) ! 0 \<and>
   (\<exists>es w'' m. exec es (the (step (SelFinished 1) (the (exec demoExit (demoWorld True))))) = Some w'' \<and>
      length (w_replicas w'') = 6 \<and> r_procName (w_replicas w'' ! m) = ''web.2'' \<and>
      r_port (w_replicas w'' ! m) = 5000 \<and> fresh (w_replicas w'' ! m))"
proof -
  let ?w = "the (exec demoExit (demoWorld True))"
  have fl: "flagRestart (demoFlags ''web=2,worker=1'' True)" by (simp add: demoFlags_def)
  from demoExit_exec [of True] have ne: "exec demoExit (demoWorld True) \<noteq> None" by auto
  from demoExit_exec [of True] demoExit_Some [of True]
  have t: "teardown (w_f ?w) = Open"
    and rs: "map (\<lambda>r. (r_procName r, r_port r, r_coord r, r_finished r)) (w_replicas ?w) =
      [(''web.1'', 5000, AtSelect, Open), (''web.2'', 5000, AtSelect, Closed),
       (''worker.1'', 5100, AtSelect, Open)]"
    by auto
  from rs have len: "length (w_replicas ?w) = 3" by (auto dest: arg_cong [where f = length])
  then have p: "1 < length (w_replicas ?w)" by simp
  from nth_map_eq [OF rs, of 1]
  have r1: "r_procName (w_replicas ?w ! 1) = ''web.2''" "r_port (w_replicas ?w ! 1) = 5000"
    "r_coord (w_replicas ?w ! 1) = AtSelect" "r_finished (w_replicas ?w ! 1) = Closed"
    by simp_all
  from exit_with_restart_relaunches [OF runStart_demo demoExit_reachable fl p r1(3,4), of 2]
  obtain w' es w'' m where s: "step (SelFinished 1) ?w = Some w'"
    and l: "length (w_replicas w') = Suc (length (w_replicas ?w))"
    and a: "restarted ?w w' 1 (length (w_replicas ?w))"
    and e: "exec es w' = Some w''" and l'': "length (w_replicas w'') = length (w_replicas w') + 2"
    and b: "restarted ?w w'' 1 m"
    by blast
  from a len r1 t have "r_procName (w_replicas w' ! 3) = ''web.2''" "r_port (w_replicas w' ! 3) = 5000"
    "teardown (w_f w') = Open" "w_replicas w' ! 0 = w_replicas ?w ! 0"
    by (simp_all add: restarted_def)
  moreover from b r1 have "r_procName (w_replicas w'' ! m) = ''web.2''"
    "r_port (w_replicas w'' ! m) = 5000" "fresh (w_replicas w'' ! m)"
    by (simp_all add: restarted_def)
  with e l'' l len have "\<exists>es w'' m. exec es w' = Some w'' \<and>
      length (w_replicas w'') = 6 \<and> r_procName (w_replicas w'' ! m) = ''web.2'' \<and>
      r_port (w_replicas w'' ! m) = 5000 \<and> fresh (w_replicas w'' ! m)"
    by auto
  ultimately show ?thesis using runStart_demo [of True] fl ne len r1 s l by simp
qed

subsection \<open>Tearing down\<close>

definition advance :: "world \<Rightarrow> world \<Rightarrow> bool" where
  \<comment> \<open>\<open>w'\<close> comes after \<open>w\<close>, \<open>runStart\<close> is where it was, no replica was added and a
    coordinator that was done is done\<close>
  "advance w w' =
     (reachable w w' \<and> w_main w' = w_main w \<and>
      length (w_replicas w') = length (w_replicas w) \<and>
      (\<forall>q < length (w_replicas w).
         r_coord (w_replicas w ! q) = CoordDone \<longrightarrow> r_coord (w_replicas w' ! q) = CoordDone))"

lemma advance_refl: "advance w w"
  by (simp add: advance_def reachable_refl)

lemma advance_trans: "advance w w' \<Longrightarrow> advance w' w'' \<Longrightarrow> advance w w''"
  unfolding advance_def by (auto intro: reachable_trans)

lemma advance_step:
  assumes "step e w = Some w'" and "w_replicas w' = (w_replicas w)[q := r']"
    and "w_main w' = w_main w"
    and "r_coord (w_replicas w ! q) = CoordDone \<longrightarrow> r_coord r' = CoordDone"
  shows "advance w w'"
proof -
  from assms(1) have "reachable w w'" by (rule reachable_step [OF reachable_refl])
  moreover have "r_coord (w_replicas w' ! k) = CoordDone"
    if "k < length (w_replicas w)" "r_coord (w_replicas w ! k) = CoordDone" for k
    using that assms(2,4) by (cases "k = q") (simp_all add: nth_list_update)
  ultimately show ?thesis using assms(2,3) by (simp add: advance_def)
qed

definition todo :: "replica \<Rightarrow> nat" where
  \<comment> \<open>the steps that a replica has to take before its coordinator is done\<close>
  "todo r =
     (if psChild (r_ps r) = Alive then 1 else 0) +
     (case r_waiter r of Waiting \<Rightarrow> 2 | Closing \<Rightarrow> 1 | WaiterDone \<Rightarrow> 0) +
     (case r_coord r of AtSelect \<Rightarrow> 3 | AtGrace deadline \<Rightarrow> 2 | AtDefer \<Rightarrow> 1 | CoordDone \<Rightarrow> 0)"

lemma replicaOk_waiting:
  "replicaOk r \<Longrightarrow> r_waiter r = Waiting \<Longrightarrow> psChild (r_ps r) \<noteq> Alive \<Longrightarrow> psChild (r_ps r) = Exited"
  unfolding replicaOk_def by (elim conjE) auto

lemma replicaOk_closing: "replicaOk r \<Longrightarrow> r_waiter r = Closing \<Longrightarrow> r_finished r = Open"
  unfolding replicaOk_def by (elim conjE) (cases "r_finished r", auto)

lemma replicaOk_finished: "replicaOk r \<Longrightarrow> r_waiter r = WaiterDone \<Longrightarrow> r_finished r = Closed"
  unfolding replicaOk_def by (elim conjE) auto

lemma inv_wg_pos:
  assumes "inv w" "q < length (w_replicas w)" "r_coord (w_replicas w ! q) \<noteq> CoordDone"
  shows "0 < wg (w_f w)"
proof -
  from assms(2,3) have "w_replicas w ! q \<in> set (filter active (w_replicas w))"
    by (simp add: active_def)
  then have "0 < length (filter active (w_replicas w))" by (rule length_pos_if_in_set)
  moreover from assms(1) have "wg (w_f w) = int (length (filter active (w_replicas w)))"
    unfolding inv_def by (elim conjE)
  ultimately show ?thesis by simp
qed

lemma progress:
  assumes "inv w" and "teardown (w_f w) = Closed" and "q < length (w_replicas w)"
    and "r_coord (w_replicas w ! q) \<noteq> CoordDone"
  shows "\<exists>w'. advance w w' \<and> todo (w_replicas w' ! q) < todo (w_replicas w ! q)"
proof -
  let ?r = "w_replicas w ! q"
  from assms(1,3,4) have run: "\<not> w_panicked w" "w_main w \<noteq> Returned"
    by (simp_all add: inv_active_running)
  from inv_replicaOk [OF assms(1)] assms(3) have ok: "replicaOk ?r" by (rule list_all_nth)
  have via: "\<exists>w'. advance w w' \<and> todo (w_replicas w' ! q) < todo ?r"
    if "step e w = Some (updReplica q g w')" "w_replicas w' = w_replicas w" "w_main w' = w_main w"
      "r_coord (g ?r) \<noteq> CoordDone \<or> True" "todo (g ?r) < todo ?r" for e g w'
  proof -
    from that(1) have "advance w (updReplica q g w')"
      by (rule advance_step [where q = q and r' = "g ?r"]) (simp_all add: that assms(4))
    moreover from assms(3) that have "todo (w_replicas (updReplica q g w') ! q) < todo ?r"
      by simp
    ultimately show ?thesis by blast
  qed
  show ?thesis
  proof (cases "psChild (r_ps ?r) = Alive")
    case True
    with run assms(3)
    have "step (ChildExit q) w = Some (updReplica q (\<lambda>r. r\<lparr>r_ps := (r_ps r)\<lparr>psChild := Exited\<rparr>\<rparr>) w)"
      by (simp add: step_def onReplica_def childExit_def updReplica_def)
    then show ?thesis by (rule via) (simp_all add: todo_def True)
  next
    case notAlive: False
    show ?thesis
    proof (cases "r_waiter ?r")
      case Waiting
      with ok notAlive have "psChild (r_ps ?r) = Exited" by (simp add: replicaOk_waiting)
      with run assms(3) Waiting
      have "step (WaitReturn q) w =
          Some (updReplica q (\<lambda>r. r\<lparr>r_ps := (r_ps r)\<lparr>psChild := Reaped\<rparr>, r_waiter := Closing\<rparr>) w)"
        by (simp add: step_def onReplica_def waitReturn_def updReplica_def)
      then show ?thesis by (rule via) (simp_all add: todo_def Waiting notAlive)
    next
      case Closing
      with ok have "r_finished ?r = Open" by (simp add: replicaOk_closing)
      with run assms(3) Closing
      have "step (CloseFinished q) w =
          Some (updReplica q (\<lambda>r. r\<lparr>r_finished := Closed, r_waiter := WaiterDone\<rparr>) w)"
        by (simp add: step_def closeFinished_def close_chan_def Let_def)
      then show ?thesis by (rule via) (simp_all add: todo_def Closing)
    next
      case WaiterDone
      with ok have fin: "r_finished ?r = Closed" by (simp add: replicaOk_finished)
      show ?thesis
      proof (cases "r_coord ?r")
        case AtSelect
        show ?thesis
        proof (cases "osHaveSigTerm (w_flags w)")
          case True
          with run assms(2,3) AtSelect
          have "step (SelTeardown q) w =
              Some (updReplica q (\<lambda>r. r\<lparr>r_ps := SendSigTerm (r_ps r),
                                         r_coord := AtGrace (w_now w + shutdownGraceTime)\<rparr>)
                     (say (''sending SIGTERM to '' @ r_procName ?r) w))"
            by (simp add: step_def selTeardown_def Let_def)
          then show ?thesis by (rule via) (simp_all add: todo_def AtSelect SendSigTerm_def)
        next
          case False
          with run assms(2,3) AtSelect
          have "step (SelTeardown q) w =
              Some (updReplica q (\<lambda>r. r\<lparr>r_ps := Kill (r_ps r), r_coord := AtDefer\<rparr>)
                     (say (''Killing '' @ r_procName ?r) w))"
            by (simp add: step_def selTeardown_def Let_def)
          then show ?thesis by (rule via) (simp_all add: todo_def AtSelect Kill_def)
        qed
      next
        case (AtGrace deadline)
        with run assms(3) fin
        have "step (SelFinished2 q) w = Some (updReplica q (\<lambda>r. r\<lparr>r_coord := AtDefer\<rparr>) w)"
          by (simp add: step_def selFinished2_def)
        then show ?thesis by (rule via) (simp_all add: todo_def AtGrace)
      next
        case AtDefer
        from assms(1,3,4) have "0 < wg (w_f w)" by (rule inv_wg_pos)
        with run assms(3) fin AtDefer
        have "step (Complete q) w =
            Some (updReplica q (\<lambda>r. r\<lparr>r_coord := CoordDone\<rparr>)
                   (w\<lparr>w_f := (w_f w)\<lparr>wg := wg (w_f w) - 1\<rparr>\<rparr>))"
          by (simp add: step_def complete_def Let_def)
        then show ?thesis by (rule via) (simp_all add: todo_def AtDefer)
      next
        case CoordDone
        with assms(4) show ?thesis by simp
      qed
    qed
  qed
qed

lemma advance_inv: "inv w \<Longrightarrow> advance w w' \<Longrightarrow> inv w'"
  by (auto simp: advance_def intro: inv_reachable)

lemma advance_closed: "teardown (w_f w) = Closed \<Longrightarrow> advance w w' \<Longrightarrow> teardown (w_f w') = Closed"
  by (auto simp: advance_def intro: reachable_keeps_closed)

lemma settle_replica:
  assumes "inv w" and "teardown (w_f w) = Closed" and "q < length (w_replicas w)"
  shows "\<exists>w'. advance w w' \<and> r_coord (w_replicas w' ! q) = CoordDone"
  using assms
proof (induction "todo (w_replicas w ! q)" arbitrary: w rule: less_induct)
  case less
  show ?case
  proof (cases "r_coord (w_replicas w ! q) = CoordDone")
    case True
    then show ?thesis using advance_refl by blast
  next
    case False
    from progress [OF less.prems False] obtain w1
      where a: "advance w w1" and t: "todo (w_replicas w1 ! q) < todo (w_replicas w ! q)"
      by blast
    from less.prems(1) a have i1: "inv w1" by (rule advance_inv)
    from less.prems(2) a have c1: "teardown (w_f w1) = Closed" by (rule advance_closed)
    from a less.prems(3) have q1: "q < length (w_replicas w1)" by (simp add: advance_def)
    from less.hyps [OF t i1 c1 q1] obtain w'
      where "advance w1 w'" "r_coord (w_replicas w' ! q) = CoordDone"
      by blast
    with a show ?thesis by (blast intro: advance_trans)
  qed
qed

lemma settle_all:
  assumes "inv w" and "teardown (w_f w) = Closed" and "k \<le> length (w_replicas w)"
  shows "\<exists>w'. advance w w' \<and> (\<forall>q < k. r_coord (w_replicas w' ! q) = CoordDone)"
  using assms(3)
proof (induction k)
  case 0
  then show ?case using advance_refl by auto
next
  case (Suc k)
  then obtain w1 where a: "advance w w1"
    and d: "\<forall>q < k. r_coord (w_replicas w1 ! q) = CoordDone"
    by auto
  from assms(1) a have i1: "inv w1" by (rule advance_inv)
  from assms(2) a have c1: "teardown (w_f w1) = Closed" by (rule advance_closed)
  from a Suc.prems have k1: "k < length (w_replicas w1)" by (simp add: advance_def)
  from settle_replica [OF i1 c1 k1] obtain w'
    where a': "advance w1 w'" and dk: "r_coord (w_replicas w' ! k) = CoordDone"
    by blast
  have "r_coord (w_replicas w' ! q) = CoordDone" if "q < Suc k" for q
  proof (cases "q = k")
    case True
    with dk show ?thesis by simp
  next
    case False
    with that have "q < k" by simp
    with d k1 a' show ?thesis by (simp add: advance_def)
  qed
  with a a' show ?case by (blast intro: advance_trans)
qed

lemma finish_fanout:
  assumes "\<not> w_panicked w" and "w_main w = Fanout calls"
  shows "\<exists>w'. reachable w w' \<and> w_main w' = Fanout []"
  using assms
proof (induction calls arbitrary: w)
  case Nil
  then show ?case using reachable_refl by blast
next
  case (Cons c calls)
  obtain idx i proc where c: "c = Call idx i proc" by (cases c)
  let ?w1 = "startProcess idx i proc None (w\<lparr>w_main := Fanout calls\<rparr>)"
  from Cons.prems c have s: "step MainStart w = Some ?w1" by (simp add: step_def mainStart_def)
  from Cons.prems have "\<not> w_panicked ?w1" "w_main ?w1 = Fanout calls" by simp_all
  from Cons.IH [OF this] obtain w' where "reachable ?w1 w'" "w_main w' = Fanout []" by blast
  moreover from s have "reachable w ?w1" by (rule reachable_step [OF reachable_refl])
  ultimately show ?case by (blast intro: reachable_trans)
qed

lemma can_return_waiting:
  assumes "inv w" and "w_main w = AwaitWg"
  shows "\<exists>w'. reachable w w' \<and> w_main w' = Returned"
proof -
  from assms have c: "teardown (w_f w) = Closed" unfolding inv_def by (elim conjE) simp
  from settle_all [OF assms(1) c order_refl] obtain w1 where a: "advance w w1"
    and d: "\<forall>q < length (w_replicas w). r_coord (w_replicas w1 ! q) = CoordDone"
    by blast
  from assms(1) a have i1: "inv w1" by (rule advance_inv)
  from a assms(2) have m1: "w_main w1 = AwaitWg" and l1: "length (w_replicas w1) = length (w_replicas w)"
    by (simp_all add: advance_def)
  from d l1 have "filter active (w_replicas w1) = []"
    by (auto simp: filter_empty_conv active_def in_set_conv_nth)
  moreover from i1 have "wg (w_f w1) = int (length (filter active (w_replicas w1)))"
    unfolding inv_def by (elim conjE)
  ultimately have "wg (w_f w1) = 0" by simp
  with m1 inv_not_panicked [OF i1]
  have "step MainWait w1 = Some (w1\<lparr>w_main := Returned\<rparr>)"
    by (simp add: step_def mainWait_def)
  then have "reachable w1 (w1\<lparr>w_main := Returned\<rparr>)" by (rule reachable_step [OF reachable_refl])
  moreover from a have "reachable w w1" by (simp add: advance_def)
  ultimately have "reachable w (w1\<lparr>w_main := Returned\<rparr>)" by (blast intro: reachable_trans)
  then show ?thesis by (intro exI [of _ "w1\<lparr>w_main := Returned\<rparr>"]) simp
qed

lemma can_return:
  assumes "inv w" and "teardown (w_f w) = Closed"
  shows "\<exists>w'. reachable w w' \<and> w_main w' = Returned"
proof (cases "w_main w")
  case (Fanout calls)
  from inv_not_panicked [OF assms(1)] Fanout obtain w1
    where r1: "reachable w w1" and m1: "w_main w1 = Fanout []"
    using finish_fanout by blast
  from assms(1) r1 have i1: "inv w1" by (rule inv_reachable)
  from r1 assms(2) have c1: "teardown (w_f w1) = Closed" by (rule reachable_keeps_closed)
  let ?w2 = "say ''shutting down'' (w1\<lparr>w_main := AwaitWg\<rparr>)"
  from m1 c1 inv_not_panicked [OF i1] have s: "step MainTeardown w1 = Some ?w2"
    by (simp add: step_def mainTeardown_def)
  then have r2: "reachable w1 ?w2" by (rule reachable_step [OF reachable_refl])
  with i1 have "inv ?w2" by (rule inv_reachable)
  moreover have "w_main ?w2 = AwaitWg" by simp
  ultimately obtain w' where "reachable ?w2 w'" "w_main w' = Returned"
    using can_return_waiting by blast
  with r1 r2 show ?thesis by (blast intro: reachable_trans)
next
  case AwaitWg
  with assms(1) show ?thesis by (rule can_return_waiting)
next
  case Returned
  then show ?thesis using reachable_refl by blast
qed

lemma norestart_step:
  assumes "inv w" and "\<not> flagRestart (w_flags w)" and "p < length (w_replicas w)"
    and "r_coord (w_replicas w ! p) = AtSelect" and "r_finished (w_replicas w ! p) = Closed"
  shows "step (SelFinished p) w =
           Some (updReplica p (\<lambda>r. r\<lparr>r_coord := AtDefer\<rparr>)
                  (w\<lparr>w_f := (w_f w)\<lparr>shutdown := True, teardown := Closed\<rparr>\<rparr>))"
proof -
  from assms(4) have "r_coord (w_replicas w ! p) \<noteq> CoordDone" by simp
  with assms(1,3) have "\<not> w_panicked w" "w_main w \<noteq> Returned"
    by (simp_all add: inv_active_running)
  with assms(2-) show ?thesis
    by (simp add: step_def selFinished_def Let_def signalShutdown_onceOk [OF inv_onceOk [OF assms(1)]])
qed

definition signalled :: "replica \<Rightarrow> bool" where
  \<comment> \<open>the child has been sent a terminate signal or a kill\<close>
  "signalled r = (0 < sigTerms (r_ps r) + sigKills (r_ps r))"

definition stopOk :: "replica \<Rightarrow> bool" where
  \<comment> \<open>a coordinator leaves its outer select either on the \<open>finished\<close> case (the channel
    is closed) or on the \<open>teardown\<close> case, and then it has signalled its child\<close>
  "stopOk r = (r_coord r = AtSelect \<or> r_finished r = Closed \<or> signalled r)"

lemma stopOk_update:
  assumes "list_all stopOk xs" and "p < length xs"
    and "stopOk (xs ! p) \<Longrightarrow> stopOk y"
  shows "list_all stopOk (xs[p := y])"
proof -
  from assms(1,2) have "stopOk (xs ! p)" by (rule list_all_nth)
  then have "stopOk y" by (rule assms(3))
  with assms(1) show ?thesis by (rule list_all_update)
qed

lemma stopOk_step:
  assumes "list_all stopOk (w_replicas w)" and "step e w = Some w'"
  shows "list_all stopOk (w_replicas w')"
  using assms(2)
proof (cases rule: step_cases)
  case (Tick d)
  with assms(1) show ?thesis by simp
next
  case Interrupt
  with assms(1) show ?thesis by simp
next
  case (MainStart idx i proc calls)
  with assms(1) show ?thesis by (simp add: stopOk_def)
next
  case MainTeardown
  with assms(1) show ?thesis by simp
next
  case MainWait
  with assms(1) show ?thesis by simp
next
  case (ChildExit p)
  from assms(1) ChildExit(2) show ?thesis unfolding ChildExit(4) updReplica_fields
    by (rule stopOk_update) (simp add: stopOk_def signalled_def)
next
  case (WaitReturn p)
  from assms(1) WaitReturn(2) show ?thesis unfolding WaitReturn(5) updReplica_fields
    by (rule stopOk_update) (simp add: stopOk_def signalled_def)
next
  case (CloseFinished p)
  from assms(1) CloseFinished(2) show ?thesis unfolding CloseFinished(5) updReplica_fields
    by (rule stopOk_update) (simp add: stopOk_def signalled_def)
next
  case (CloseFinishedPanic p)
  with assms(1) show ?thesis by simp
next
  case (Restart p)
  have new: "list_all stopOk (w_replicas w @ [newReplica (w_flags w) (w_env w)
      (r_idx (w_replicas w ! p)) (r_procNum (w_replicas w ! p)) (r_proc (w_replicas w ! p)) (Some p)])"
    using assms(1) by (simp add: stopOk_def)
  from Restart(2) have lt: "p < length (w_replicas w @ [newReplica (w_flags w) (w_env w)
      (r_idx (w_replicas w ! p)) (r_procNum (w_replicas w ! p)) (r_proc (w_replicas w ! p)) (Some p)])"
    by simp
  from new lt show ?thesis unfolding Restart(6) updReplica_fields startProcess_fields
    by (rule stopOk_update) (use Restart(2,5) in \<open>simp add: stopOk_def nth_append\<close>)
next
  case (NoRestart p)
  from assms(1) NoRestart(2) show ?thesis
    unfolding NoRestart(6) updReplica_fields signalShutdown_fields
    by (rule stopOk_update) (use NoRestart(5) in \<open>simp add: stopOk_def\<close>)
next
  case (TeardownKill p)
  from assms(1) TeardownKill(2) show ?thesis unfolding TeardownKill(6) updReplica_fields say_fields
    by (rule stopOk_update) (simp add: stopOk_def signalled_def Kill_def)
next
  case (TeardownTerm p)
  from assms(1) TeardownTerm(2) show ?thesis unfolding TeardownTerm(6) updReplica_fields say_fields
    by (rule stopOk_update) (simp add: stopOk_def signalled_def SendSigTerm_def)
next
  case (Timer p deadline)
  from assms(1) Timer(2) show ?thesis unfolding Timer(5) forceKill_fields
    by (rule stopOk_update) (simp add: stopOk_def signalled_def SendSigKill_def)
next
  case (TeardownNow p deadline)
  from assms(1) TeardownNow(2) show ?thesis unfolding TeardownNow(5) forceKill_fields
    by (rule stopOk_update) (simp add: stopOk_def signalled_def SendSigKill_def)
next
  case (Finished2 p deadline)
  from assms(1) Finished2(2) show ?thesis unfolding Finished2(5) updReplica_fields
    by (rule stopOk_update) (use Finished2(4) in \<open>simp add: stopOk_def\<close>)
next
  case (Complete p)
  from Complete(6)
  have eq: "w_replicas w' = (w_replicas w)[p := (w_replicas w ! p)\<lparr>r_coord := CoordDone\<rparr>]"
    by simp
  from assms(1) Complete(2) show ?thesis unfolding eq
    by (rule stopOk_update) (use Complete(4) in \<open>simp add: stopOk_def\<close>)
next
  case (CompletePanic p)
  with assms(1) show ?thesis by simp
qed

lemma reachable_stopOk:
  "reachable (firstWorld fl env calls t) w \<Longrightarrow> list_all stopOk (w_replicas w)"
  by (erule reachable_invariant [where P = "\<lambda>w. list_all stopOk (w_replicas w)"])
    (simp_all add: firstWorld_def stopOk_step)

definition stopSent :: "bool \<Rightarrow> nat \<Rightarrow> replica \<Rightarrow> replica \<Rightarrow> bool" where
  \<comment> \<open>\<open>r'\<close> is \<open>r\<close> after its coordinator took the \<open>teardown\<close> case at the time \<open>now\<close>: one
    terminate signal was sent and the coordinator waits for 3 seconds, or, on a
    platform with no such signal, one kill was sent and the coordinator is at its
    deferred \<open><-finished\<close>; the child itself is as it was\<close>
  "stopSent haveSigTerm now r r' =
     (psChild (r_ps r') = psChild (r_ps r) \<and> r_finished r' = r_finished r \<and>
      (if haveSigTerm
       then sigTerms (r_ps r') = sigTerms (r_ps r) + 1 \<and> sigKills (r_ps r') = sigKills (r_ps r) \<and>
            r_coord r' = AtGrace (now + shutdownGraceTime)
       else sigTerms (r_ps r') = sigTerms (r_ps r) \<and> sigKills (r_ps r') = sigKills (r_ps r) + 1 \<and>
            r_coord r' = AtDefer))"

definition stopLine :: "bool \<Rightarrow> replica \<Rightarrow> message" where
  "stopLine haveSigTerm r =
     SystemOutput ((if haveSigTerm then ''sending SIGTERM to '' else ''Killing '') @ r_procName r)"

lemma teardown_case:
  assumes "inv w" and "teardown (w_f w) = Closed" and "q < length (w_replicas w)"
    and "r_coord (w_replicas w ! q) = AtSelect"
  shows "\<exists>w1. step (SelTeardown q) w = Some w1 \<and>
           stopSent (osHaveSigTerm (w_flags w)) (w_now w) (w_replicas w ! q) (w_replicas w1 ! q) \<and>
           w_out w1 = w_out w @ [stopLine (osHaveSigTerm (w_flags w)) (w_replicas w ! q)] \<and>
           w_replicas w1 = (w_replicas w)[q := w_replicas w1 ! q] \<and>
           w_flags w1 = w_flags w \<and> w_now w1 = w_now w \<and> w_f w1 = w_f w"
proof -
  let ?r = "w_replicas w ! q"
  from assms(4) have "r_coord ?r \<noteq> CoordDone" by simp
  with assms(1,3) have run: "\<not> w_panicked w" "w_main w \<noteq> Returned"
    by (simp_all add: inv_active_running)
  show ?thesis
  proof (cases "osHaveSigTerm (w_flags w)")
    case True
    let ?w1 = "updReplica q (\<lambda>r. r\<lparr>r_ps := SendSigTerm (r_ps r),
                                   r_coord := AtGrace (w_now w + shutdownGraceTime)\<rparr>)
                 (say (''sending SIGTERM to '' @ r_procName ?r) w)"
    from True run assms(2,3,4) have "step (SelTeardown q) w = Some ?w1"
      by (simp add: step_def selTeardown_def Let_def)
    moreover from True assms(3)
    have "stopSent (osHaveSigTerm (w_flags w)) (w_now w) ?r (w_replicas ?w1 ! q)"
      by (simp add: stopSent_def SendSigTerm_def)
    moreover from True have "w_out ?w1 = w_out w @ [stopLine (osHaveSigTerm (w_flags w)) ?r]"
      by (simp add: stopLine_def)
    moreover from assms(3) have "w_replicas ?w1 = (w_replicas w)[q := w_replicas ?w1 ! q]"
      by simp
    moreover have "w_flags ?w1 = w_flags w" "w_now ?w1 = w_now w" "w_f ?w1 = w_f w"
      by simp_all
    ultimately show ?thesis by blast
  next
    case False
    let ?w1 = "updReplica q (\<lambda>r. r\<lparr>r_ps := Kill (r_ps r), r_coord := AtDefer\<rparr>)
                 (say (''Killing '' @ r_procName ?r) w)"
    from False run assms(2,3,4) have "step (SelTeardown q) w = Some ?w1"
      by (simp add: step_def selTeardown_def Let_def)
    moreover from False assms(3)
    have "stopSent (osHaveSigTerm (w_flags w)) (w_now w) ?r (w_replicas ?w1 ! q)"
      by (simp add: stopSent_def Kill_def)
    moreover from False have "w_out ?w1 = w_out w @ [stopLine (osHaveSigTerm (w_flags w)) ?r]"
      by (simp add: stopLine_def)
    moreover from assms(3) have "w_replicas ?w1 = (w_replicas w)[q := w_replicas ?w1 ! q]"
      by simp
    moreover have "w_flags ?w1 = w_flags w" "w_now ?w1 = w_now w" "w_f ?w1 = w_f w"
      by simp_all
    ultimately show ?thesis by blast
  qed
qed

definition atSelect :: "world \<Rightarrow> nat list" where
  \<comment> \<open>the replicas whose coordinator is at its outer select\<close>
  "atSelect w =
     filter (\<lambda>q. r_coord (w_replicas w ! q) = AtSelect) [0..<length (w_replicas w)]"

lemma observe_all:
  assumes "inv w" and "teardown (w_f w) = Closed" and "distinct qs"
    and "\<forall>q \<in> set qs. q < length (w_replicas w) \<and> r_coord (w_replicas w ! q) = AtSelect"
  shows "\<exists>w3. exec (map SelTeardown qs) w = Some w3 \<and>
           length (w_replicas w3) = length (w_replicas w) \<and>
           (\<forall>k < length (w_replicas w).
              (k \<in> set qs \<longrightarrow>
                 stopSent (osHaveSigTerm (w_flags w)) (w_now w) (w_replicas w ! k) (w_replicas w3 ! k)) \<and>
              (k \<notin> set qs \<longrightarrow> w_replicas w3 ! k = w_replicas w ! k))"
  using assms
proof (induction qs arbitrary: w)
  case Nil
  then show ?case by simp
next
  case (Cons q qs)
  from Cons.prems(4) have q: "q < length (w_replicas w)" "r_coord (w_replicas w ! q) = AtSelect"
    by simp_all
  from teardown_case [OF Cons.prems(1,2) q] obtain w1
    where s: "step (SelTeardown q) w = Some w1"
      and sent: "stopSent (osHaveSigTerm (w_flags w)) (w_now w) (w_replicas w ! q) (w_replicas w1 ! q)"
      and rep: "w_replicas w1 = (w_replicas w)[q := w_replicas w1 ! q]"
      and same: "w_flags w1 = w_flags w" "w_now w1 = w_now w" "w_f w1 = w_f w"
    by blast
  from s have "reachable w w1" by (rule reachable_step [OF reachable_refl])
  with Cons.prems(1) have i1: "inv w1" by (rule inv_reachable)
  from same Cons.prems(2) have c1: "teardown (w_f w1) = Closed" by simp
  from Cons.prems(3) have d: "distinct qs" and nq: "q \<notin> set qs" by simp_all
  from rep have len: "length (w_replicas w1) = length (w_replicas w)"
    by (metis length_list_update)
  have other: "w_replicas w1 ! k = w_replicas w ! k" if "k \<noteq> q" for k
    using rep that by (metis nth_list_update_neq)
  have a1: "\<forall>k \<in> set qs. k < length (w_replicas w1) \<and> r_coord (w_replicas w1 ! k) = AtSelect"
  proof
    fix k
    assume k: "k \<in> set qs"
    with nq have "k \<noteq> q" by auto
    with k Cons.prems(4) len other [of k]
    show "k < length (w_replicas w1) \<and> r_coord (w_replicas w1 ! k) = AtSelect" by simp
  qed
  from Cons.IH [OF i1 c1 d a1] obtain w3
    where e3: "exec (map SelTeardown qs) w1 = Some w3"
      and l3: "length (w_replicas w3) = length (w_replicas w1)"
      and all3: "\<forall>k < length (w_replicas w1).
          (k \<in> set qs \<longrightarrow>
             stopSent (osHaveSigTerm (w_flags w1)) (w_now w1) (w_replicas w1 ! k) (w_replicas w3 ! k)) \<and>
          (k \<notin> set qs \<longrightarrow> w_replicas w3 ! k = w_replicas w1 ! k)"
    by blast
  from s e3 have e: "exec (map SelTeardown (q # qs)) w = Some w3" by simp
  have "(k \<in> set (q # qs) \<longrightarrow>
           stopSent (osHaveSigTerm (w_flags w)) (w_now w) (w_replicas w ! k) (w_replicas w3 ! k)) \<and>
        (k \<notin> set (q # qs) \<longrightarrow> w_replicas w3 ! k = w_replicas w ! k)"
    if k: "k < length (w_replicas w)" for k
  proof (cases "k = q")
    case True
    with nq all3 q(1) len have "w_replicas w3 ! k = w_replicas w1 ! k" by simp
    with True sent show ?thesis by simp
  next
    case False
    from k len all3 have
      "(k \<in> set qs \<longrightarrow>
          stopSent (osHaveSigTerm (w_flags w1)) (w_now w1) (w_replicas w1 ! k) (w_replicas w3 ! k)) \<and>
       (k \<notin> set qs \<longrightarrow> w_replicas w3 ! k = w_replicas w1 ! k)"
      by simp
    with False other [OF False] same show ?thesis by simp
  qed
  with e l3 len show ?case by (intro exI [of _ w3]) simp
qed

lemma atSelect_set:
  "q \<in> set (atSelect w) \<longleftrightarrow> q < length (w_replicas w) \<and> r_coord (w_replicas w ! q) = AtSelect"
  by (auto simp: atSelect_def)

lemma observe_atSelect:
  assumes "inv w" and "teardown (w_f w) = Closed"
  shows "\<exists>w1. exec (map SelTeardown (atSelect w)) w = Some w1 \<and>
           length (w_replicas w1) = length (w_replicas w) \<and>
           (\<forall>q < length (w_replicas w).
              r_coord (w_replicas w1 ! q) \<noteq> AtSelect \<and>
              (r_coord (w_replicas w ! q) = AtSelect \<longrightarrow>
                 stopSent (osHaveSigTerm (w_flags w)) (w_now w) (w_replicas w ! q) (w_replicas w1 ! q)))"
proof -
  have d: "distinct (atSelect w)" by (simp add: atSelect_def)
  have a: "\<forall>q \<in> set (atSelect w). q < length (w_replicas w) \<and> r_coord (w_replicas w ! q) = AtSelect"
    by (simp add: atSelect_set)
  from observe_all [OF assms d a] obtain w1
    where e: "exec (map SelTeardown (atSelect w)) w = Some w1"
      and l: "length (w_replicas w1) = length (w_replicas w)"
      and all: "\<forall>k < length (w_replicas w).
          (k \<in> set (atSelect w) \<longrightarrow>
             stopSent (osHaveSigTerm (w_flags w)) (w_now w) (w_replicas w ! k) (w_replicas w1 ! k)) \<and>
          (k \<notin> set (atSelect w) \<longrightarrow> w_replicas w1 ! k = w_replicas w ! k)"
    by blast
  have "r_coord (w_replicas w1 ! q) \<noteq> AtSelect \<and>
        (r_coord (w_replicas w ! q) = AtSelect \<longrightarrow>
           stopSent (osHaveSigTerm (w_flags w)) (w_now w) (w_replicas w ! q) (w_replicas w1 ! q))"
    if q: "q < length (w_replicas w)" for q
  proof (cases "r_coord (w_replicas w ! q) = AtSelect")
    case True
    with q have "q \<in> set (atSelect w)" by (simp add: atSelect_set)
    with all q
    have st: "stopSent (osHaveSigTerm (w_flags w)) (w_now w) (w_replicas w ! q) (w_replicas w1 ! q)"
      by simp
    then have "r_coord (w_replicas w1 ! q) \<noteq> AtSelect"
      by (cases "osHaveSigTerm (w_flags w)") (simp_all add: stopSent_def)
    with st show ?thesis by simp
  next
    case False
    with q have "q \<notin> set (atSelect w)" by (simp add: atSelect_set)
    with all q have "w_replicas w1 ! q = w_replicas w ! q" by simp
    with False show ?thesis by simp
  qed
  with e l show ?thesis by (intro exI [of _ w1]) simp
qed

lemma inv_all_done:
  assumes "inv w" and "w_main w = Returned"
  shows "list_all (\<lambda>r. r_coord r = CoordDone \<and> psChild (r_ps r) = Reaped) (w_replicas w)"
  unfolding list_all_iff
proof
  fix r
  assume m: "r \<in> set (w_replicas w)"
  from inv_Returned [OF assms] m have d: "r_coord r = CoordDone"
    by (auto simp: filter_empty_conv active_def)
  from inv_replicaOk [OF assms(1)] m have "replicaOk r" by (simp add: list_all_iff)
  from replicaOk_done [OF this d] d
  show "r_coord r = CoordDone \<and> psChild (r_ps r) = Reaped" by simp
qed

definition tearsDown :: "Flags \<Rightarrow> world \<Rightarrow> bool" where
  \<comment> \<open>the barrier is tripped and no replica is a restart; a coordinator that has left its
    outer select has seen \<open>finished\<close> closed or has signalled its child; a coordinator at
    its outer select can take the \<open>teardown\<close> case, which signals the child and prints
    the line, and cannot take the \<open>finished\<close> case as long as \<open>finished\<close> is open; once
    \<open>runStart\<close> has returned every coordinator is done and every child reaped; and the
    \<open>teardown\<close> cases of all coordinators at their outer select, taken one after the
    other, stop every replica, after which the program can run until \<open>runStart\<close> returns\<close>
  "tearsDown fl w =
     (teardown (w_f w) = Closed \<and> \<not> w_panicked w \<and>
      list_all (\<lambda>r. r_parent r = None) (w_replicas w) \<and>
      list_all stopOk (w_replicas w) \<and>
      (\<forall>q < length (w_replicas w).
         r_coord (w_replicas w ! q) = AtSelect \<longrightarrow>
           (\<exists>w1. step (SelTeardown q) w = Some w1 \<and>
                 stopSent (osHaveSigTerm fl) (w_now w) (w_replicas w ! q) (w_replicas w1 ! q) \<and>
                 w_out w1 = w_out w @ [stopLine (osHaveSigTerm fl) (w_replicas w ! q)]) \<and>
           (r_finished (w_replicas w ! q) = Open \<longrightarrow> step (SelFinished q) w = None)) \<and>
      (w_main w = Returned \<longrightarrow>
         list_all (\<lambda>r. r_coord r = CoordDone \<and> psChild (r_ps r) = Reaped) (w_replicas w)) \<and>
      (\<exists>w1 w2. exec (map SelTeardown (atSelect w)) w = Some w1 \<and>
           (\<forall>q < length (w_replicas w).
              r_coord (w_replicas w1 ! q) \<noteq> AtSelect \<and>
              (r_coord (w_replicas w ! q) = AtSelect \<longrightarrow>
                 stopSent (osHaveSigTerm fl) (w_now w) (w_replicas w ! q) (w_replicas w1 ! q))) \<and>
           reachable w1 w2 \<and> w_main w2 = Returned \<and>
           list_all (\<lambda>r. r_coord r = CoordDone \<and> psChild (r_ps r) = Reaped) (w_replicas w2)))"

lemma tearsDown_select:
  assumes "tearsDown fl w" and "q < length (w_replicas w)"
    and "r_coord (w_replicas w ! q) = AtSelect"
  shows "(\<exists>w1. step (SelTeardown q) w = Some w1 \<and>
            stopSent (osHaveSigTerm fl) (w_now w) (w_replicas w ! q) (w_replicas w1 ! q) \<and>
            w_out w1 = w_out w @ [stopLine (osHaveSigTerm fl) (w_replicas w ! q)]) \<and>
         (r_finished (w_replicas w ! q) = Open \<longrightarrow> step (SelFinished q) w = None)"
proof -
  from assms(1) have "\<forall>q < length (w_replicas w).
         r_coord (w_replicas w ! q) = AtSelect \<longrightarrow>
           (\<exists>w1. step (SelTeardown q) w = Some w1 \<and>
                 stopSent (osHaveSigTerm fl) (w_now w) (w_replicas w ! q) (w_replicas w1 ! q) \<and>
                 w_out w1 = w_out w @ [stopLine (osHaveSigTerm fl) (w_replicas w ! q)]) \<and>
           (r_finished (w_replicas w ! q) = Open \<longrightarrow> step (SelFinished q) w = None)"
    unfolding tearsDown_def by (elim conjE)
  with assms(2,3) show ?thesis by blast
qed

lemma tearsDown_continues:
  assumes "tearsDown fl w"
  shows "\<exists>w1 w2. exec (map SelTeardown (atSelect w)) w = Some w1 \<and>
           (\<forall>q < length (w_replicas w).
              r_coord (w_replicas w1 ! q) \<noteq> AtSelect \<and>
              (r_coord (w_replicas w ! q) = AtSelect \<longrightarrow>
                 stopSent (osHaveSigTerm fl) (w_now w) (w_replicas w ! q) (w_replicas w1 ! q))) \<and>
           reachable w1 w2 \<and> w_main w2 = Returned \<and>
           list_all (\<lambda>r. r_coord r = CoordDone \<and> psChild (r_ps r) = Reaped) (w_replicas w2)"
  using assms unfolding tearsDown_def by (elim conjE)

text \<open>
  C4: without the restart flag, the coordinator that takes the \<open>finished\<close> case of its
  outer select while the graceful barrier is open calls \<open>SignalShutdown\<close>: the step
  trips the barrier and starts no process. Before the step no coordinator can take the
  \<open>teardown\<close> case. In every state after it the barrier is tripped and no replica is a
  restart; every coordinator that is still at its outer select can take the \<open>teardown\<close>
  case (its only case while its \<open>finished\<close> is open), and taking it prints the line and
  sends the child one terminate signal (one kill on a platform with no terminate
  signal); every coordinator that has left its outer select has seen its child
  finished or has signalled it; the \<open>teardown\<close> cases alone, one coordinator after the
  other, stop every replica that is still at its outer select, and from there the
  program can go on until \<open>runStart\<close> returns; and whenever \<open>runStart\<close> has returned,
  every coordinator is done and every child reaped.
\<close>

theorem exit_without_restart_tears_down:
  assumes "runStart fl pf env t args = Started w0" and "reachable w0 w"
    and "\<not> flagRestart fl" and "p < length (w_replicas w)"
    and "r_coord (w_replicas w ! p) = AtSelect" and "r_finished (w_replicas w ! p) = Closed"
    and "teardown (w_f w) = Open"
  shows "\<exists>w'. step (SelFinished p) w = Some w' \<and>
           teardown (w_f w') = Closed \<and>
           w_replicas w' = (w_replicas w)[p := (w_replicas w ! p)\<lparr>r_coord := AtDefer\<rparr>] \<and>
           w_out w' = w_out w \<and>
           (\<forall>q. step (SelTeardown q) w = None) \<and>
           (\<forall>w''. reachable w' w'' \<longrightarrow> tearsDown fl w'')"
proof -
  from assms(1) obtain concurrency
    where w0: "w0 = firstWorld fl (fst env) (outerLoop concurrency (theSingleton args) 0 (fst pf)) t"
    by (rule runStart_Started)
  let ?calls = "outerLoop concurrency (theSingleton args) 0 (fst pf)"
  let ?w' = "updReplica p (\<lambda>r. r\<lparr>r_coord := AtDefer\<rparr>)
      (w\<lparr>w_f := (w_f w)\<lparr>shutdown := True, teardown := Closed\<rparr>\<rparr>)"
  from assms(2) have i: "inv w" unfolding w0 by (rule reachable_inv)
  from assms(2) have "fanInv fl (fst env) ?calls w" unfolding w0 by (rule reachable_fanInv)
  then have fl: "w_flags w = fl" by (simp add: fanInv_def)
  with assms(3) have "\<not> flagRestart (w_flags w)" by simp
  with i have s: "step (SelFinished p) w = Some ?w'" using assms(4,5,6) by (rule norestart_step)
  with assms(2) have r0: "reachable w0 ?w'" by (rule reachable_step)
  have c': "teardown (w_f ?w') = Closed" by simp
  from assms(7) have before: "\<forall>q. step (SelTeardown q) w = None"
    by (simp add: step_def selTeardown_def Let_def)
  have seen: "tearsDown fl w''" if r: "reachable ?w' w''" for w''
  proof -
    from r0 r have r2: "reachable w0 w''" by (rule reachable_trans)
    then have i2: "inv w''" and f2: "fanInv fl (fst env) ?calls w''"
      and s2: "list_all stopOk (w_replicas w'')"
      unfolding w0 by (rule reachable_inv, rule reachable_fanInv, rule reachable_stopOk)
    from f2 have fl2: "w_flags w'' = fl" by (simp add: fanInv_def)
    from r c' have c2: "teardown (w_f w'') = Closed" by (rule reachable_keeps_closed)
    have sel: "(\<exists>w1. step (SelTeardown q) w'' = Some w1 \<and>
                 stopSent (osHaveSigTerm fl) (w_now w'') (w_replicas w'' ! q) (w_replicas w1 ! q) \<and>
                 w_out w1 = w_out w'' @ [stopLine (osHaveSigTerm fl) (w_replicas w'' ! q)]) \<and>
        (r_finished (w_replicas w'' ! q) = Open \<longrightarrow> step (SelFinished q) w'' = None)"
      if q: "q < length (w_replicas w'')" "r_coord (w_replicas w'' ! q) = AtSelect" for q
    proof -
      from teardown_case [OF i2 c2 q] fl2
      have "\<exists>w1. step (SelTeardown q) w'' = Some w1 \<and>
                 stopSent (osHaveSigTerm fl) (w_now w'') (w_replicas w'' ! q) (w_replicas w1 ! q) \<and>
                 w_out w1 = w_out w'' @ [stopLine (osHaveSigTerm fl) (w_replicas w'' ! q)]"
        by auto
      moreover have "step (SelFinished q) w'' = None" if "r_finished (w_replicas w'' ! q) = Open"
        using that by (simp add: step_def selFinished_def Let_def)
      ultimately show ?thesis by blast
    qed
    from f2 assms(3) have par: "list_all (\<lambda>r. r_parent r = None) (w_replicas w'')"
      by (auto simp: fanInv_def keyOk_def list_all_iff)
    have ret: "list_all (\<lambda>r. r_coord r = CoordDone \<and> psChild (r_ps r) = Reaped) (w_replicas w'')"
      if "w_main w'' = Returned"
      using i2 that by (rule inv_all_done)
    from observe_atSelect [OF i2 c2] fl2 obtain w1
      where e1: "exec (map SelTeardown (atSelect w'')) w'' = Some w1"
        and a1: "\<forall>q < length (w_replicas w'').
              r_coord (w_replicas w1 ! q) \<noteq> AtSelect \<and>
              (r_coord (w_replicas w'' ! q) = AtSelect \<longrightarrow>
                 stopSent (osHaveSigTerm fl) (w_now w'') (w_replicas w'' ! q) (w_replicas w1 ! q))"
      by auto
    from e1 have r1: "reachable w'' w1" unfolding reachable_def by blast
    with i2 have i1: "inv w1" by (rule inv_reachable)
    from r1 c2 have c1: "teardown (w_f w1) = Closed" by (rule reachable_keeps_closed)
    from can_return [OF i1 c1] obtain w2 where r3: "reachable w1 w2" and m3: "w_main w2 = Returned"
      by blast
    from i1 r3 have "inv w2" by (rule inv_reachable)
    from this m3
    have "list_all (\<lambda>r. r_coord r = CoordDone \<and> psChild (r_ps r) = Reaped) (w_replicas w2)"
      by (rule inv_all_done)
    with e1 a1 r3 m3
    have cont: "\<exists>w1 w2. exec (map SelTeardown (atSelect w'')) w'' = Some w1 \<and>
           (\<forall>q < length (w_replicas w'').
              r_coord (w_replicas w1 ! q) \<noteq> AtSelect \<and>
              (r_coord (w_replicas w'' ! q) = AtSelect \<longrightarrow>
                 stopSent (osHaveSigTerm fl) (w_now w'') (w_replicas w'' ! q) (w_replicas w1 ! q))) \<and>
           reachable w1 w2 \<and> w_main w2 = Returned \<and>
           list_all (\<lambda>r. r_coord r = CoordDone \<and> psChild (r_ps r) = Reaped) (w_replicas w2)"
      by blast
    from c2 inv_not_panicked [OF i2] par s2 sel ret cont show ?thesis
      unfolding tearsDown_def by (intro conjI allI impI) blast+
  qed
  have "w_replicas ?w' = (w_replicas w)[p := (w_replicas w ! p)\<lparr>r_coord := AtDefer\<rparr>]"
    "w_out ?w' = w_out w"
    by simp_all
  with s c' before seen show ?thesis by blast
qed

theorem exit_without_restart_tears_down_witness:
  "runStart (demoFlags ''web=2,worker=1'' False) (demoProcfile, None) (Map.empty, None) 0 [] =
     Started (demoWorld False) \<and>
   \<not> flagRestart (demoFlags ''web=2,worker=1'' False) \<and>
   exec demoExit (demoWorld False) \<noteq> None \<and>
   length (w_replicas (the (exec demoExit (demoWorld False)))) = 3 \<and>
   r_coord (w_replicas (the (exec demoExit (demoWorld False))) ! 1) = AtSelect \<and>
   r_finished (w_replicas (the (exec demoExit (demoWorld False))) ! 1) = Closed \<and>
   teardown (w_f (the (exec demoExit (demoWorld False)))) = Open \<and>
   step (SelTeardown 0) (the (exec demoExit (demoWorld False))) = None \<and>
   step (SelFinished 1) (the (exec demoExit (demoWorld False))) \<noteq> None \<and>
   teardown (w_f (the (step (SelFinished 1) (the (exec demoExit (demoWorld False)))))) = Closed \<and>
   length (w_replicas (the (step (SelFinished 1) (the (exec demoExit (demoWorld False)))))) = 3 \<and>
   r_coord (w_replicas (the (step (SelFinished 1) (the (exec demoExit (demoWorld False))))) ! 0)
     = AtSelect \<and>
   step (SelFinished 0) (the (step (SelFinished 1) (the (exec demoExit (demoWorld False)))))
     = None \<and>
   (\<exists>w1. step (SelTeardown 0) (the (step (SelFinished 1) (the (exec demoExit (demoWorld False)))))
           = Some w1 \<and>
         sigTerms (r_ps (w_replicas w1 ! 0)) = 1 \<and> sigKills (r_ps (w_replicas w1 ! 0)) = 0 \<and>
         psChild (r_ps (w_replicas w1 ! 0)) = Alive \<and>
         r_coord (w_replicas w1 ! 0) = AtGrace 3000000000 \<and>
         w_out w1 =
           w_out (the (step (SelFinished 1) (the (exec demoExit (demoWorld False))))) @
           [SystemOutput ''sending SIGTERM to web.1'']) \<and>
   (\<exists>w1 w2. exec (map SelTeardown
                 (atSelect (the (step (SelFinished 1) (the (exec demoExit (demoWorld False)))))))
               (the (step (SelFinished 1) (the (exec demoExit (demoWorld False))))) = Some w1 \<and>
       r_coord (w_replicas w1 ! 0) \<noteq> AtSelect \<and> r_coord (w_replicas w1 ! 2) \<noteq> AtSelect \<and>
       reachable w1 w2 \<and> w_main w2 = Returned \<and>
       list_all (\<lambda>r. r_coord r = CoordDone \<and> psChild (r_ps r) = Reaped) (w_replicas w2))"
proof -
  let ?w = "the (exec demoExit (demoWorld False))"
  let ?fl = "demoFlags ''web=2,worker=1'' False"
  have fl: "\<not> flagRestart ?fl" and sigterm: "osHaveSigTerm ?fl" by (simp_all add: demoFlags_def)
  from demoExit_exec [of False] have ne: "exec demoExit (demoWorld False) \<noteq> None" by auto
  from demoExit_exec [of False] demoExit_Some [of False]
  have t: "teardown (w_f ?w) = Open" and now: "w_now ?w = 0"
    and rs: "map (\<lambda>r. (r_coord r, r_finished r)) (w_replicas ?w) =
      [(AtSelect, Open), (AtSelect, Closed), (AtSelect, Open)]"
    and sg: "map (\<lambda>r. (r_procName r, psChild (r_ps r), sigTerms (r_ps r), sigKills (r_ps r)))
        (w_replicas ?w) =
      [(''web.1'', Alive, 0, 0), (''web.2'', Reaped, 0, 0), (''worker.1'', Alive, 0, 0)]"
    by auto
  from rs have len: "length (w_replicas ?w) = 3" by (auto dest: arg_cong [where f = length])
  then have p: "1 < length (w_replicas ?w)" by simp
  from nth_map_eq [OF rs, of 1]
  have r1: "r_coord (w_replicas ?w ! 1) = AtSelect" "r_finished (w_replicas ?w ! 1) = Closed"
    by simp_all
  from nth_map_eq [OF rs, of 0]
  have r0: "r_coord (w_replicas ?w ! 0) = AtSelect" "r_finished (w_replicas ?w ! 0) = Open"
    by simp_all
  from nth_map_eq [OF rs, of 2]
  have r2: "r_coord (w_replicas ?w ! 2) = AtSelect" by simp
  from nth_map_eq [OF sg, of 0]
  have g0: "r_procName (w_replicas ?w ! 0) = ''web.1''" "psChild (r_ps (w_replicas ?w ! 0)) = Alive"
    "sigTerms (r_ps (w_replicas ?w ! 0)) = 0" "sigKills (r_ps (w_replicas ?w ! 0)) = 0"
    by simp_all
  from exit_without_restart_tears_down [OF runStart_demo demoExit_reachable fl p r1 t]
  obtain w' where s: "step (SelFinished 1) ?w = Some w'"
    and c: "teardown (w_f w') = Closed"
    and rep: "w_replicas w' = (w_replicas ?w)[1 := (w_replicas ?w ! 1)\<lparr>r_coord := AtDefer\<rparr>]"
    and before: "\<forall>q. step (SelTeardown q) ?w = None"
    and seen: "\<forall>w''. reachable w' w'' \<longrightarrow> tearsDown ?fl w''"
    by blast
  from seen reachable_refl have b: "tearsDown ?fl w'" by blast
  from rep len r0 r2 g0 have l': "length (w_replicas w') = 3"
    and r0': "r_coord (w_replicas w' ! 0) = AtSelect" "r_finished (w_replicas w' ! 0) = Open"
    and r2': "r_coord (w_replicas w' ! 2) = AtSelect"
    and g0': "r_procName (w_replicas w' ! 0) = ''web.1''" "psChild (r_ps (w_replicas w' ! 0)) = Alive"
      "sigTerms (r_ps (w_replicas w' ! 0)) = 0" "sigKills (r_ps (w_replicas w' ! 0)) = 0"
    by simp_all
  from s now have now': "w_now w' = 0"
    by (cases rule: step_cases) simp_all
  from l' have q0: "0 < length (w_replicas w')" by simp
  from tearsDown_select [OF b q0 r0'(1)] r0'(2) have nf: "step (SelFinished 0) w' = None"
    by blast
  from tearsDown_select [OF b q0 r0'(1)] obtain w1 where s1: "step (SelTeardown 0) w' = Some w1"
    and st: "stopSent (osHaveSigTerm ?fl) (w_now w') (w_replicas w' ! 0) (w_replicas w1 ! 0)"
    and o1: "w_out w1 = w_out w' @ [stopLine (osHaveSigTerm ?fl) (w_replicas w' ! 0)]"
    by blast
  from st sigterm now' g0' o1
  have "sigTerms (r_ps (w_replicas w1 ! 0)) = 1 \<and> sigKills (r_ps (w_replicas w1 ! 0)) = 0 \<and>
      psChild (r_ps (w_replicas w1 ! 0)) = Alive \<and> r_coord (w_replicas w1 ! 0) = AtGrace 3000000000 \<and>
      w_out w1 = w_out w' @ [SystemOutput ''sending SIGTERM to web.1'']"
    by (simp add: stopSent_def stopLine_def shutdownGraceTime_def Second_def)
  with s1 have one: "\<exists>w1. step (SelTeardown 0) w' = Some w1 \<and>
      sigTerms (r_ps (w_replicas w1 ! 0)) = 1 \<and> sigKills (r_ps (w_replicas w1 ! 0)) = 0 \<and>
      psChild (r_ps (w_replicas w1 ! 0)) = Alive \<and> r_coord (w_replicas w1 ! 0) = AtGrace 3000000000 \<and>
      w_out w1 = w_out w' @ [SystemOutput ''sending SIGTERM to web.1'']"
    by blast
  from tearsDown_continues [OF b] obtain v1 v2
    where e: "exec (map SelTeardown (atSelect w')) w' = Some v1"
      and a: "\<forall>q < length (w_replicas w'). r_coord (w_replicas v1 ! q) \<noteq> AtSelect"
      and r: "reachable v1 v2" "w_main v2 = Returned"
        "list_all (\<lambda>r. r_coord r = CoordDone \<and> psChild (r_ps r) = Reaped) (w_replicas v2)"
    by blast
  from a l' have "r_coord (w_replicas v1 ! 0) \<noteq> AtSelect" "r_coord (w_replicas v1 ! 2) \<noteq> AtSelect"
    by simp_all
  with e r have all: "\<exists>w1 w2. exec (map SelTeardown (atSelect w')) w' = Some w1 \<and>
       r_coord (w_replicas w1 ! 0) \<noteq> AtSelect \<and> r_coord (w_replicas w1 ! 2) \<noteq> AtSelect \<and>
       reachable w1 w2 \<and> w_main w2 = Returned \<and>
       list_all (\<lambda>r. r_coord r = CoordDone \<and> psChild (r_ps r) = Reaped) (w_replicas w2)"
    by blast
  from before have b0: "step (SelTeardown 0) ?w = None" by simp
  from runStart_demo [of False] fl ne len r1 t b0 s c l' r0' nf one all
  show ?thesis by simp
qed

subsection \<open>The final wait\<close>

text \<open>
  C1: with no filter argument, \<open>runStart\<close> makes exactly N calls of \<open>startProcess\<close>, one
  coordination goroutine each, where N adds up the count of the concurrency spec for
  each template that has one (a count below 0 starts none) and 1 for each other
  template. \<open>f.wg.Wait()\<close> is reached only with the graceful barrier tripped, and when
  \<open>runStart\<close> has returned every coordination goroutine is done. A coordination
  goroutine is done only when \<open>ps.Wait()\<close> has returned for its child, which is reaped.
  Once the barrier is tripped there is always a way for \<open>runStart\<close> to return.
\<close>

theorem runStart_waits_for_all_coordinators:
  assumes "runStart fl (entries, None) (env, None) t [] = Started w0" and "reachable w0 w"
  shows "length (mainCalls w) + length (pending w) =
           (\<Sum>proc\<leftarrow>entries.
              case fst (parseConcurrency (flagConcurrency fl)) (Name proc) of
                Some v \<Rightarrow> nat v | None \<Rightarrow> 1) \<and>
         (\<not> flagRestart fl \<longrightarrow> length (w_replicas w) = length (mainCalls w)) \<and>
         (w_main w = AwaitWg \<or> w_main w = Returned \<longrightarrow>
            teardown (w_f w) = Closed \<and> pending w = []) \<and>
         (w_main w = Returned \<longrightarrow> list_all (\<lambda>r. r_coord r = CoordDone) (w_replicas w)) \<and>
         list_all (\<lambda>r. r_coord r = CoordDone \<longrightarrow>
                     r_waiter r = WaiterDone \<and> psChild (r_ps r) = Reaped) (w_replicas w) \<and>
         (teardown (w_f w) = Closed \<longrightarrow> (\<exists>w'. reachable w w' \<and> w_main w' = Returned))"
proof -
  from assms(1) obtain concurrency
    where p: "parseConcurrency (flagConcurrency fl) = (concurrency, None)"
      and w0: "w0 = firstWorld fl env (outerLoop concurrency [] 0 entries) t"
    by (rule runStart_Started) (simp add: theSingleton_def)
  from assms(2) have i: "inv w" unfolding w0 by (rule reachable_inv)
  from assms(2) have f: "fanInv fl env (outerLoop concurrency [] 0 entries) w"
    unfolding w0 by (rule reachable_fanInv)
  from f have "length (mainCalls w @ pending w) = length (outerLoop concurrency [] 0 entries)"
    by (simp add: fanInv_def)
  then have 1: "length (mainCalls w) + length (pending w) =
      (\<Sum>proc\<leftarrow>entries. case fst (parseConcurrency (flagConcurrency fl)) (Name proc) of
                Some v \<Rightarrow> nat v | None \<Rightarrow> 1)"
    by (simp add: outerLoop_length p numProcs_def option.case_distrib [of nat] cong: option.case_cong)
  have 2: "length (w_replicas w) = length (mainCalls w)" if "\<not> flagRestart fl"
  proof -
    from f that have "list_all (\<lambda>r. r_parent r = None) (w_replicas w)"
      by (auto simp: fanInv_def keyOk_def list_all_iff)
    then have "filter (\<lambda>r. r_parent r = None) (w_replicas w) = w_replicas w"
      by (simp add: list_all_iff)
    then show ?thesis by (simp add: mainCalls_def)
  qed
  from i have 3: "w_main w = AwaitWg \<or> w_main w = Returned \<longrightarrow>
      teardown (w_f w) = Closed \<and> pending w = []"
    by (auto simp: inv_def pending_def)
  have 4: "list_all (\<lambda>r. r_coord r = CoordDone) (w_replicas w)" if "w_main w = Returned"
  proof -
    from i that have "filter active (w_replicas w) = []" by (rule inv_Returned)
    then show ?thesis by (auto simp: filter_empty_conv list_all_iff active_def)
  qed
  have 5: "list_all (\<lambda>r. r_coord r = CoordDone \<longrightarrow>
      r_waiter r = WaiterDone \<and> psChild (r_ps r) = Reaped) (w_replicas w)"
    unfolding list_all_iff
  proof (intro ballI impI)
    fix r
    assume "r \<in> set (w_replicas w)" and d: "r_coord r = CoordDone"
    with inv_replicaOk [OF i] have "replicaOk r" by (simp add: list_all_iff)
    from this d show "r_waiter r = WaiterDone \<and> psChild (r_ps r) = Reaped"
      by (rule replicaOk_done)
  qed
  from i have 6: "\<exists>w'. reachable w w' \<and> w_main w' = Returned" if "teardown (w_f w) = Closed"
    using that by (rule can_return)
  from 1 2 3 4 5 6 show ?thesis by (intro conjI impI; simp)
qed

theorem runStart_waits_for_all_coordinators_witness:
  "runStart (demoFlags ''web=2,worker=1'' False) (demoProcfile, None) (Map.empty, None) 0 [] =
     Started (demoWorld False) \<and>
   map_option w_main (exec demoRun (demoWorld False)) = Some Returned \<and>
   length (mainCalls (the (exec demoRun (demoWorld False)))) = 3 \<and>
   length (w_replicas (the (exec demoRun (demoWorld False)))) = 3 \<and>
   teardown (w_f (the (exec demoRun (demoWorld False)))) = Closed \<and>
   list_all (\<lambda>r. r_coord r = CoordDone) (w_replicas (the (exec demoRun (demoWorld False)))) \<and>
   list_all (\<lambda>r. psChild (r_ps r) = Reaped) (w_replicas (the (exec demoRun (demoWorld False))))"
proof -
  let ?w = "the (exec demoRun (demoWorld False))"
  from demoRun_exec obtain w where w: "exec demoRun (demoWorld False) = Some w" by auto
  with demoRun_exec have m: "w_main ?w = Returned" "pending ?w = []"
    and rs: "map (\<lambda>r. (r_coord r, psChild (r_ps r))) (w_replicas ?w) =
      [(CoordDone, Reaped), (CoordDone, Reaped), (CoordDone, Reaped)]"
    by auto
  have fl: "\<not> flagRestart (demoFlags ''web=2,worker=1'' False)"
    "flagConcurrency (demoFlags ''web=2,worker=1'' False) = ''web=2,worker=1''"
    by (simp_all add: demoFlags_def)
  from runStart_waits_for_all_coordinators [OF runStart_demo demoRun_reachable] m fl
  have "length (mainCalls ?w) = 3" "length (w_replicas ?w) = length (mainCalls ?w)"
    "teardown (w_f ?w) = Closed" "list_all (\<lambda>r. r_coord r = CoordDone) (w_replicas ?w)"
    by (simp_all add: parse_demo demoProcfile_def)
  moreover have "list_all (\<lambda>x. snd x = Reaped)
      (map (\<lambda>r. (r_coord r, psChild (r_ps r))) (w_replicas ?w))"
    by (simp add: rs)
  then have "list_all (\<lambda>r. psChild (r_ps r) = Reaped) (w_replicas ?w)"
    by (simp add: list_all_iff)
  ultimately show ?thesis using runStart_demo w m by simp
qed

end
